theory Spec2Isabelle
  imports Complex_Main "HOL-Library.Word" "HOL-Library.Log_Nat"
begin

section \<open>Images\<close>

type_synonym byte = "8 word"

text \<open>
  An image plane (\<open>Image<T>\<close>, \<open>ImageF\<close>): its dimensions and its pixels, \<open>Row img y x\<close>
  for the C++ \<open>img.Row(y)[x]\<close>. The source indexes with \<open>int\<close>, so coordinates
  are integers here.
\<close>

record 'a Image =
  xsize :: int
  ysize :: int
  Row :: "int \<Rightarrow> int \<Rightarrow> 'a"

text \<open>
  \<open>Image(xsize, ysize, val)\<close>: an image filled with one value. The default
  constructor \<open>Image()\<close> gives an image of no pixels.
\<close>

definition FilledImage :: "int \<Rightarrow> int \<Rightarrow> 'a \<Rightarrow> 'a Image" where
  "FilledImage xs ys val = \<lparr>xsize = xs, ysize = ys, Row = \<lambda>y x. val\<rparr>"

definition EmptyImage :: "real Image" where
  "EmptyImage = FilledImage 0 0 0"

text \<open>The assignment \<open>img.Row(y)[x] = v\<close>.\<close>

definition set_pixel :: "'a Image \<Rightarrow> int \<Rightarrow> int \<Rightarrow> 'a \<Rightarrow> 'a Image" where
  "set_pixel img y x v = img\<lparr>Row := (Row img)(y := (Row img y)(x := v))\<rparr>"

text \<open>
  A loop \<open>for (int i = lo; i < hi; ++i)\<close> whose body does not change \<open>i\<close>,
  \<open>lo\<close> or \<open>hi\<close> is a fold of the body over the integers \<open>[lo..hi - 1]\<close>.
\<close>

text \<open>The constants \<open>kBlockEdge\<close> and \<open>kTileToBlockRatio\<close> of \<open>compressed_image.h\<close>.\<close>

definition kBlockEdge :: int where
  "kBlockEdge = 8"

definition kTileToBlockRatio :: int where
  "kTileToBlockRatio = 8"

text \<open>
  The operations of the compressed image (class \<open>CompressedImage\<close>, with its
  quantizer and the butteraugli comparator) that the functions of \<open>pik.cc\<close> call.
  Their code is outside \<open>pik.cc\<close>, so they are parameters of the embedding; an
  operation that mutates the image returns the new image. \<open>Compare\<close> stands for
  \<open>comparator.Compare(img->ToSRGB())\<close> followed by reading \<open>comparator.distmap()\<close>
  and \<open>comparator.distance()\<close>; \<open>initial_distance\<close> is what
  \<open>comparator.distance()\<close> returns before the first comparison.
\<close>

record 'img CompressedImageT =
  block_xsize :: "'img \<Rightarrow> int"
  block_ysize :: "'img \<Rightarrow> int"
  SetQuantField :: "real \<Rightarrow> real Image \<Rightarrow> 'img \<Rightarrow> bool \<times> 'img"
  GetQuantField :: "'img \<Rightarrow> real \<times> real Image"
  Quantize :: "'img \<Rightarrow> 'img"
  Encode :: "'img \<Rightarrow> byte list"
  Compare :: "'img \<Rightarrow> real Image \<times> real"
  initial_distance :: real

section \<open>Single-precision arithmetic\<close>

text \<open>
  The C++ type \<open>float\<close> is IEEE 754 binary32. Its finite values are embedded as
  the reals they denote. In the rate control (\<open>TileDistMap\<close>, \<open>DistToPeakMap\<close>,
  \<open>AdjustQuantVal\<close>, \<open>FindBestQuantization\<close>) every operation of the source on
  \<open>float\<close> is the exact operation followed by \<open>fl\<close>, the rounding to the nearest
  value of binary32, ties to the even significand. A value of magnitude \<open>2^e \<le> |x| < 2^(e+1)\<close>
  is rounded to a multiple of \<open>2^(e - 23)\<close>, and below \<open>2^-126\<close> to a multiple of
  \<open>2^-149\<close> (the subnormal values). Comparisons and \<open>std::max\<close> do not round.
  Infinities and NaN are not embedded: a result beyond the largest finite value
  stays a real number here.
\<close>

text \<open>The exponent \<open>e\<close> of a positive real \<open>x\<close>, with \<open>2^e \<le> x < 2^(e+1)\<close>.\<close>

definition expo :: "real \<Rightarrow> int" where
  "expo x = (if 1 \<le> x then bitlen \<lfloor>x\<rfloor> - 1 else - bitlen (\<lceil>1 / x\<rceil> - 1))"

text \<open>Rounding to the nearest integer, ties to the even one.\<close>

definition rne :: "real \<Rightarrow> int" where
  "rne y =
     (let f = \<lfloor>y\<rfloor>; r = y - real_of_int f
      in if r < 1 / 2 then f else if 1 / 2 < r then f + 1 else if even f then f else f + 1)"

definition fl :: "real \<Rightarrow> real" where
  "fl x =
     (if x = 0 then 0
      else
        let e = max (expo \<bar>x\<bar>) (- 126);
            u = 2 powi (e - 23)
        in sgn x * (real_of_int (rne (\<bar>x\<bar> / u)) * u))"

section \<open>Distance maps\<close>

text \<open>
  \<open>TileDistMap\<close>: the maximum of the distance map over each tile. The sizes
  are not negative and \<open>tile_size\<close> is positive, so the C++ division is \<open>div\<close>.
\<close>

definition TileDistMap :: "real Image \<Rightarrow> int \<Rightarrow> real Image" where
  "TileDistMap distmap tile_size =
     (let tile_xsize = (xsize distmap + tile_size - 1) div tile_size;
          tile_ysize = (ysize distmap + tile_size - 1) div tile_size
      in fold (\<lambda>tile_y. fold (\<lambda>tile_x tile_distmap.
           let x_max = min (xsize distmap) (tile_size * (tile_x + 1));
               y_max = min (ysize distmap) (tile_size * (tile_y + 1));
               max_dist =
                 fold (\<lambda>y. fold (\<lambda>x max_dist. max max_dist (Row distmap y x))
                                [tile_size * tile_x..x_max - 1])
                      [tile_size * tile_y..y_max - 1] 0
           in set_pixel tile_distmap tile_y tile_x max_dist)
           [0..tile_xsize - 1]) [0..tile_ysize - 1]
           (FilledImage tile_xsize tile_ysize 0))"

text \<open>
  The three parts of the body of \<open>DistToPeakMap\<close> for one cell \<open>(x0, y0)\<close>: the
  maximum over the clipped neighbourhood, the test for a peak, and the loop that
  writes the distances to the peak. The test
  \<open>field.Row(y0)[x0] > (1.0f - peak_weight) * peak_min + peak_weight * local_max\<close>
  is computed in \<open>float\<close>: the difference, the two products and the sum are each
  rounded. The distance written is an integer, at most \<open>local_radius\<close>; its
  conversion to \<open>float\<close>, exact up to \<open>2^24\<close>, is not rounded here.
\<close>

definition local_max_in ::
  "real Image \<Rightarrow> real \<Rightarrow> int \<Rightarrow> int \<Rightarrow> int \<Rightarrow> int \<Rightarrow> real" where
  "local_max_in field peak_min x_min x_max y_min y_max =
     fold (\<lambda>y. fold (\<lambda>x local_max. max local_max (Row field y x)) [x_min..x_max - 1])
          [y_min..y_max - 1] peak_min"

definition write_peak_dists ::
  "int \<Rightarrow> int \<Rightarrow> int \<Rightarrow> int \<Rightarrow> int \<Rightarrow> int \<Rightarrow> real Image \<Rightarrow> real Image" where
  "write_peak_dists x0 y0 x_min x_max y_min y_max result =
     fold (\<lambda>y. fold (\<lambda>x result.
             let dist = real_of_int (max \<bar>y - y0\<bar> \<bar>x - x0\<bar>);
                 cur_dist = Row result y x
             in if cur_dist < 0 \<or> cur_dist > dist then set_pixel result y x dist
                else result)
             [x_min..x_max - 1])
          [y_min..y_max - 1] result"

definition peak_step ::
  "real Image \<Rightarrow> real \<Rightarrow> int \<Rightarrow> real \<Rightarrow> int \<Rightarrow> int \<Rightarrow> real Image \<Rightarrow> real Image" where
  "peak_step field peak_min local_radius peak_weight y0 x0 result =
     (let x_min = max 0 (x0 - local_radius);
          y_min = max 0 (y0 - local_radius);
          x_max = min (xsize field) (x0 + 1 + local_radius);
          y_max = min (ysize field) (y0 + 1 + local_radius);
          local_max = local_max_in field peak_min x_min x_max y_min y_max
      in if Row field y0 x0 >
              fl (fl (fl (1 - peak_weight) * peak_min) + fl (peak_weight * local_max))
         then write_peak_dists x0 y0 x_min x_max y_min y_max result
         else result)"

definition DistToPeakMap :: "real Image \<Rightarrow> real \<Rightarrow> int \<Rightarrow> real \<Rightarrow> real Image" where
  "DistToPeakMap field peak_min local_radius peak_weight =
     fold (\<lambda>y0. fold (\<lambda>x0. peak_step field peak_min local_radius peak_weight y0 x0)
                    [0..xsize field - 1])
          [0..ysize field - 1]
          (FilledImage (xsize field) (ysize field) (- 1))"

text \<open>
  The notions of the claim about \<open>DistToPeakMap\<close>. The neighbourhood of a cell is
  the square of side \<open>2 r + 1\<close> around it, clipped to the map; the Chebyshev
  distance of two cells is the larger of their distances in \<open>y\<close> and in \<open>x\<close>.
  Cells are pairs \<open>(y, x)\<close>. A peak, as the claim words it (\<open>claimed_peak\<close>), is a
  cell of the map whose value exceeds \<open>0.35 * \<tau> + 0.65 * max \<tau> (neighbourhood
  maximum)\<close>; a peak in single precision (\<open>is_peak\<close>) is a cell whose value
  exceeds \<open>(1 - w) * \<tau> + w * max \<tau> (neighbourhood maximum)\<close> with the difference,
  the products and the sum rounded to \<open>float\<close>.
\<close>

definition neighbourhood :: "real Image \<Rightarrow> int \<Rightarrow> int \<times> int \<Rightarrow> (int \<times> int) set" where
  "neighbourhood field r p =
     {(y, x). max 0 (fst p - r) \<le> y \<and> y < min (ysize field) (fst p + 1 + r) \<and>
              max 0 (snd p - r) \<le> x \<and> x < min (xsize field) (snd p + 1 + r)}"

definition is_peak :: "real Image \<Rightarrow> real \<Rightarrow> int \<Rightarrow> real \<Rightarrow> int \<times> int \<Rightarrow> bool" where
  "is_peak field \<tau> r w p \<longleftrightarrow>
     0 \<le> fst p \<and> fst p < ysize field \<and> 0 \<le> snd p \<and> snd p < xsize field \<and>
     Row field (fst p) (snd p) >
       fl (fl (fl (1 - w) * \<tau>) +
           fl (w * Max (insert \<tau> ((\<lambda>(y, x). Row field y x) ` neighbourhood field r p))))"

definition claimed_peak :: "real Image \<Rightarrow> real \<Rightarrow> int \<Rightarrow> int \<times> int \<Rightarrow> bool" where
  "claimed_peak field \<tau> r p \<longleftrightarrow>
     0 \<le> fst p \<and> fst p < ysize field \<and> 0 \<le> snd p \<and> snd p < xsize field \<and>
     Row field (fst p) (snd p) >
       0.35 * \<tau> + 0.65 * Max (insert \<tau> ((\<lambda>(y, x). Row field y x) ` neighbourhood field r p))"

definition chebyshev :: "int \<times> int \<Rightarrow> int \<times> int \<Rightarrow> int" where
  "chebyshev c p = max \<bar>fst c - fst p\<bar> \<bar>snd c - snd p\<bar>"

definition covering_peaks ::
  "real Image \<Rightarrow> real \<Rightarrow> int \<Rightarrow> real \<Rightarrow> int \<times> int \<Rightarrow> (int \<times> int) set" where
  "covering_peaks field \<tau> r w c = {p. is_peak field \<tau> r w p \<and> c \<in> neighbourhood field r p}"

text \<open>
  The update of one cell by the writing loop, the peaks among a set \<open>S\<close> of
  cells that cover a cell, and the value the claim gives the cell when the peaks
  are looked for in \<open>S\<close> only.
\<close>

definition upd_dist :: "real \<Rightarrow> real \<Rightarrow> real" where
  "upd_dist d cur_dist = (if cur_dist < 0 \<or> cur_dist > d then d else cur_dist)"

definition covering_in ::
  "real Image \<Rightarrow> real \<Rightarrow> int \<Rightarrow> real \<Rightarrow> (int \<times> int) set \<Rightarrow> int \<times> int \<Rightarrow> (int \<times> int) set" where
  "covering_in field \<tau> r w S c = {p \<in> S. is_peak field \<tau> r w p \<and> c \<in> neighbourhood field r p}"

definition peak_val ::
  "real Image \<Rightarrow> real \<Rightarrow> int \<Rightarrow> real \<Rightarrow> (int \<times> int) set \<Rightarrow> int \<times> int \<Rightarrow> real" where
  "peak_val field \<tau> r w S c =
     (if covering_in field \<tau> r w S c = {} then - 1
      else real_of_int (Min (chebyshev c ` covering_in field \<tau> r w S c)))"

text \<open>
  A map of three tiles in one row, with a peak in the first tile; and a map of
  one tile whose value \<open>1 + 2^-22\<close> is a \<open>float\<close> just above the threshold 1.
\<close>

definition three_tile_map :: "real Image" where
  "three_tile_map = \<lparr>xsize = 3, ysize = 1, Row = \<lambda>y x. if x = 0 then 32 else 0\<rparr>"

definition tie_map :: "real Image" where
  "tie_map = \<lparr>xsize = 1, ysize = 1, Row = \<lambda>y x. 1 + 1 / 2 ^ 22\<rparr>"

section \<open>Rate control: the quantisation adjustment of one block\<close>

text \<open>
  \<open>AdjustQuantVal\<close> updates \<open>*q\<close> in place and returns the flag; the embedding
  returns the flag together with the new value of \<open>*q\<close>. Every operation is one of
  \<open>float\<close>: the constant \<open>0.999f\<close> is \<open>fl 0.999\<close>, and the product, the quotients,
  the sum \<open>d + 1.0f\<close> and the difference are rounded.
\<close>

definition AdjustQuantVal :: "real \<Rightarrow> real \<Rightarrow> real \<Rightarrow> real \<Rightarrow> bool \<times> real" where
  "AdjustQuantVal q d factor quant_max =
     (if q \<ge> fl (fl 0.999 * quant_max) then (False, q)
      else
        let inv_q = fl (1 / q);
            adj_inv_q = fl (inv_q - fl (factor / fl (d + 1)))
        in (True, fl (1 / max (fl (1 / quant_max)) adj_inv_q)))"

section \<open>Rate control: FindBestQuantization\<close>

text \<open>
  \<open>adaptive_quant_params()\<close> of \<open>compressed_image.h\<close>, and the tables of
  \<open>FindBestQuantization\<close>, which are tables of \<open>float\<close>: their entries are the
  decimal constants rounded. The two initial values are values of \<open>float\<close> as they
  stand (the fields of \<open>AdaptiveQuantParams\<close>, declared outside the sources, are
  taken to be of type \<open>float\<close>).
\<close>

definition initial_quant_val_dc :: real where
  "initial_quant_val_dc = 1.0625"

definition initial_quant_val_ac :: real where
  "initial_quant_val_ac = 0.5625"

definition kMaxOuterIters :: nat where
  "kMaxOuterIters = 3"

definition kAdjSpeed :: "real list" where
  "kAdjSpeed = [fl 0.1, fl 0.05, fl 0.025]"

definition kQuantScale :: "real list" where
  "kQuantScale = [fl 0.0, fl 0.8, fl 0.9]"

text \<open>
  The variables of \<open>FindBestQuantization\<close> that live across passes of its outer
  loop, with the image it works on. \<open>distance\<close> is the value of
  \<open>comparator.distance()\<close>. \<open>scale_log\<close> is not a variable of the source: it
  records, in order, every index \<open>outer_iter\<close> with which
  \<open>kQuantScale[outer_iter]\<close> was applied to the quant field.
\<close>

record 'img fbq_state =
  fbq_img :: 'img
  quant_field :: "real Image"
  tile_distmap :: "real Image"
  distance :: real
  outer_iter :: nat
  butteraugli_iter :: int
  quant_max :: real
  scale_log :: "nat list"

text \<open>
  The loops over the blocks, lines 247 to 261: every block whose distance to a
  peak is not negative is adjusted. The state of the loops is the quant field
  and the flag \<open>changed\<close>.
\<close>

definition adjust_block ::
  "real Image \<Rightarrow> real Image \<Rightarrow> nat \<Rightarrow> real \<Rightarrow> int \<Rightarrow> int \<Rightarrow> real Image \<times> bool
     \<Rightarrow> real Image \<times> bool" where
  "adjust_block tile_dm dist_to_peak_map o_iter q_max y x = (\<lambda>(qf, changed).
     if Row dist_to_peak_map y x \<ge> 0 then
       let factor = fl (kAdjSpeed ! o_iter * Row tile_dm y x);
           (c, q) = AdjustQuantVal (Row qf y x) (Row dist_to_peak_map y x) factor q_max
       in (set_pixel qf y x q, if c then True else changed)
     else (qf, changed))"

definition adjust_blocks ::
  "'img CompressedImageT \<Rightarrow> 'img \<Rightarrow> real Image \<Rightarrow> real Image \<Rightarrow> nat \<Rightarrow> real
     \<Rightarrow> real Image \<times> bool \<Rightarrow> real Image \<times> bool" where
  "adjust_blocks env img tile_dm dist_to_peak_map o_iter q_max =
     fold (\<lambda>y. fold (adjust_block tile_dm dist_to_peak_map o_iter q_max y)
                   [0..block_xsize env img - 1])
          [0..block_ysize env img - 1]"

text \<open>
  The loop \<open>for (int radius = 1; radius <= 4 && !changed; ++radius)\<close>. The
  argument \<open>0.65\<close> is converted to the \<open>float\<close> parameter \<open>peak_weight\<close>.
\<close>

function radius_loop ::
  "'img CompressedImageT \<Rightarrow> 'img \<Rightarrow> real Image \<Rightarrow> real \<Rightarrow> nat \<Rightarrow> real \<Rightarrow> int
     \<Rightarrow> real Image \<times> bool \<Rightarrow> real Image \<times> bool" where
  "radius_loop env img tile_dm butteraugli_target o_iter q_max radius (qf, changed) =
     (if radius \<le> 4 \<and> \<not> changed then
        let dist_to_peak_map = DistToPeakMap tile_dm butteraugli_target radius (fl 0.65)
        in radius_loop env img tile_dm butteraugli_target o_iter q_max (radius + 1)
             (adjust_blocks env img tile_dm dist_to_peak_map o_iter q_max (qf, changed))
      else (qf, changed))"
  by pat_completeness auto
termination
  by (relation "measure (\<lambda>(env, img, tile_dm, target, o_iter, q_max, radius, s). nat (5 - radius))")
     auto

text \<open>
  The loop \<open>while (!changed && comparator.distance() > butteraugli_target)\<close>. Its
  state is the quant field, the flag \<open>changed\<close> and \<open>quant_max\<close>. It goes round
  again only after \<open>quant_max < 8\<close> was raised by \<open>0.5\<close> or with \<open>changed\<close> set,
  which is why it terminates. \<open>quant_max\<close> starts at 4 and takes the values
  4, 4.5, ..., 8 only, for which \<open>quant_max += 0.5f\<close> is exact: the sum is not
  rounded here.
\<close>

function adjust_loop ::
  "'img CompressedImageT \<Rightarrow> 'img \<Rightarrow> real Image \<Rightarrow> real \<Rightarrow> real \<Rightarrow> nat
     \<Rightarrow> real Image \<times> bool \<times> real \<Rightarrow> real Image \<times> bool \<times> real" where
  "adjust_loop env img tile_dm cmp_dist butteraugli_target o_iter (qf, changed, q_max) =
     (if \<not> changed \<and> cmp_dist > butteraugli_target then
        let (qf', changed') =
              radius_loop env img tile_dm butteraugli_target o_iter q_max 1 (qf, changed)
        in if q_max \<ge> 8 then (qf', changed', q_max)
           else adjust_loop env img tile_dm cmp_dist butteraugli_target o_iter
                  (qf', changed', if \<not> changed' then q_max + 0.5 else q_max)
      else (qf, changed, q_max))"
  by pat_completeness auto
termination
  by (relation "measure (\<lambda>(env, img, tile_dm, cmp_dist, target, o_iter, qf, changed, q_max).
        if changed then 0 else 1 + nat \<lceil>16 - 2 * q_max\<rceil>)")
     (auto split: if_splits, linarith)

text \<open>
  The multiplication of the quant field by \<open>kQuantScale[outer_iter]\<close>, block by
  block (lines 269 to 273).
\<close>

definition scale_quant_field ::
  "'img CompressedImageT \<Rightarrow> 'img \<Rightarrow> nat \<Rightarrow> real Image \<Rightarrow> real Image" where
  "scale_quant_field env img o_iter =
     fold (\<lambda>y. fold (\<lambda>x qf. set_pixel qf y x (fl (Row qf y x * kQuantScale ! o_iter)))
                   [0..block_xsize env img - 1])
          [0..block_ysize env img - 1]"

text \<open>
  One pass of the outer loop \<open>for (;;)\<close>: either the loop is left (\<open>Break\<close>) or
  it goes round again (\<open>Continue\<close>), each with the state reached. The printing
  under \<open>FLAGS_dump_quant_state\<close> and the debug output through \<open>aux_out\<close> are
  left out.
\<close>

datatype 'a loop_step = Break 'a | Continue 'a

definition compare_step ::
  "'img CompressedImageT \<Rightarrow> real \<Rightarrow> int \<Rightarrow> 'img fbq_state \<Rightarrow> 'img fbq_state loop_step" where
  "compare_step env kInitialQuantDC max_butteraugli_iters s =
     (let (field_changed, img1) = SetQuantField env kInitialQuantDC (quant_field s) (fbq_img s)
      in if field_changed then
           let img2 = Quantize env img1
           in if butteraugli_iter s \<ge> max_butteraugli_iters then Break (s\<lparr>fbq_img := img2\<rparr>)
              else
                let (distmap, d) = Compare env img2
                in Continue (s\<lparr>fbq_img := img2,
                                tile_distmap := TileDistMap distmap kBlockEdge,
                                distance := d,
                                butteraugli_iter := butteraugli_iter s + 1\<rparr>)
         else Continue (s\<lparr>fbq_img := img1\<rparr>))"

definition FindBestQuantization_pass ::
  "'img CompressedImageT \<Rightarrow> real \<Rightarrow> int \<Rightarrow> 'img fbq_state \<Rightarrow> 'img fbq_state loop_step" where
  "FindBestQuantization_pass env butteraugli_target max_butteraugli_iters s =
     (case compare_step env (fl (initial_quant_val_dc / butteraugli_target))
             max_butteraugli_iters s of
        Break s1 \<Rightarrow> Break s1
      | Continue s1 \<Rightarrow>
          let (qf, changed, q_max) =
                adjust_loop env (fbq_img s1) (tile_distmap s1) (distance s1)
                  butteraugli_target (outer_iter s1) (quant_field s1, False, quant_max s1);
              s2 = s1\<lparr>quant_field := qf, quant_max := q_max\<rparr>
          in if \<not> changed then
               let o_iter = outer_iter s2 + 1
               in if o_iter = kMaxOuterIters then Break (s2\<lparr>outer_iter := o_iter\<rparr>)
                  else Continue (s2\<lparr>outer_iter := o_iter,
                                    quant_field := scale_quant_field env (fbq_img s2) o_iter qf,
                                    scale_log := scale_log s2 @ [o_iter]\<rparr>)
             else Continue s2)"

text \<open>
  The loop \<open>for (;;)\<close> itself. Nothing in its text bounds the number of passes,
  so it is a partial function: \<open>None\<close> stands for a run that never leaves the
  loop.
\<close>

partial_function (option) FindBestQuantization_loop ::
  "'img CompressedImageT \<Rightarrow> real \<Rightarrow> int \<Rightarrow> 'img fbq_state \<Rightarrow> 'img fbq_state option" where
  "FindBestQuantization_loop env butteraugli_target max_butteraugli_iters s =
     (case FindBestQuantization_pass env butteraugli_target max_butteraugli_iters s of
        Break s' \<Rightarrow> Some s'
      | Continue s' \<Rightarrow>
          FindBestQuantization_loop env butteraugli_target max_butteraugli_iters s')"

text \<open>
  The state before the first pass, and \<open>FindBestQuantization\<close>: it returns the
  state in which the loop was left, which holds the image as quantized last.
\<close>

definition FindBestQuantization_init ::
  "'img CompressedImageT \<Rightarrow> real \<Rightarrow> 'img \<Rightarrow> 'img fbq_state" where
  "FindBestQuantization_init env butteraugli_target img =
     \<lparr>fbq_img = img,
      quant_field = FilledImage (block_xsize env img) (block_ysize env img)
                      (fl (initial_quant_val_ac / butteraugli_target)),
      tile_distmap = EmptyImage,
      distance = initial_distance env,
      outer_iter = 0,
      butteraugli_iter = 0,
      quant_max = 4,
      scale_log = []\<rparr>"

definition FindBestQuantization ::
  "'img CompressedImageT \<Rightarrow> real \<Rightarrow> int \<Rightarrow> 'img \<Rightarrow> 'img fbq_state option" where
  "FindBestQuantization env butteraugli_target max_butteraugli_iters img =
     FindBestQuantization_loop env butteraugli_target max_butteraugli_iters
       (FindBestQuantization_init env butteraugli_target img)"

text \<open>
  The state after at most \<open>n\<close> passes of the loop from a state: the state in
  which the loop was left, if it was left within \<open>n\<close> passes, and the state
  before pass \<open>n + 1\<close> otherwise. The flag tells which.
\<close>

fun FindBestQuantization_passes ::
  "nat \<Rightarrow> 'img CompressedImageT \<Rightarrow> real \<Rightarrow> int \<Rightarrow> 'img fbq_state \<Rightarrow> 'img fbq_state loop_step" where
  "FindBestQuantization_passes 0 env butteraugli_target max_butteraugli_iters s = Continue s"
| "FindBestQuantization_passes (Suc n) env butteraugli_target max_butteraugli_iters s =
     (case FindBestQuantization_pass env butteraugli_target max_butteraugli_iters s of
        Break s' \<Rightarrow> Break s'
      | Continue s' \<Rightarrow>
          FindBestQuantization_passes n env butteraugli_target max_butteraugli_iters s')"

text \<open>
  The state a step of the loop carries, and the invariant of the loop: every
  index in \<open>scale_log\<close> is 1 or 2, and before a pass \<open>outer_iter\<close> is less than
  \<open>kMaxOuterIters\<close>.
\<close>

definition state_of :: "'a loop_step \<Rightarrow> 'a" where
  "state_of r = (case r of Break s \<Rightarrow> s | Continue s \<Rightarrow> s)"

definition scale_log_ok :: "'img fbq_state \<Rightarrow> bool" where
  "scale_log_ok s \<longleftrightarrow> (\<forall>i\<in>set (scale_log s). 1 \<le> i \<and> i < kMaxOuterIters)"

definition fbq_inv :: "'img fbq_state loop_step \<Rightarrow> bool" where
  "fbq_inv r \<longleftrightarrow>
     scale_log_ok (state_of r) \<and>
     (case r of Continue s \<Rightarrow> outer_iter s < kMaxOuterIters | Break s \<Rightarrow> True)"

text \<open>
  An image of 9 by 1 pixels, so of two blocks, for which the loop does not end.
  The quantizer reports a change exactly when \<open>q_dc\<close> or a cell of the field
  differs from what it holds; the comparator finds distance 32 in the first
  block and 0 in the second, whatever the quantization.
\<close>

definition stall_distmap :: "real Image" where
  "stall_distmap = \<lparr>xsize = 9, ysize = 1, Row = \<lambda>y x. if x < 8 then 32 else 0\<rparr>"

definition stall_codec :: "(real \<times> real list) CompressedImageT" where
  "stall_codec =
     \<lparr>block_xsize = (\<lambda>_. 2), block_ysize = (\<lambda>_. 1),
      SetQuantField = (\<lambda>dc field img.
         ((dc, [Row field 0 0, Row field 0 1]) \<noteq> img, (dc, [Row field 0 0, Row field 0 1]))),
      GetQuantField = (\<lambda>img. (fst img, \<lparr>xsize = 2, ysize = 1, Row = \<lambda>y x. snd img ! nat x\<rparr>)),
      Quantize = (\<lambda>img. img),
      Encode = (\<lambda>img. []),
      Compare = (\<lambda>img. (stall_distmap, 32)),
      initial_distance = 0\<rparr>"

text \<open>
  The states of that run: \<open>heating q\<close> before a pass that will run the
  comparator, with the first block at \<open>q\<close>; \<open>stalled\<close> once the first block has
  reached \<open>quant_max\<close> and the quantizer holds the field.
\<close>

definition heating :: "real \<Rightarrow> (real \<times> real list) fbq_state \<Rightarrow> bool" where
  "heating q s \<longleftrightarrow>
     fbq_img s \<noteq> (fl (17 / 18), [q, 1 / 2]) \<and>
     Row (quant_field s) 0 0 = q \<and> Row (quant_field s) 0 1 = 1 / 2 \<and>
     outer_iter s = 0 \<and> quant_max s = 4"

definition stalled :: "(real \<times> real list) fbq_state \<Rightarrow> bool" where
  "stalled s \<longleftrightarrow>
     fbq_img s = (fl (17 / 18), [4, 1 / 2]) \<and>
     Row (quant_field s) 0 0 = 4 \<and> Row (quant_field s) 0 1 = 1 / 2 \<and>
     xsize (tile_distmap s) = 2 \<and> ysize (tile_distmap s) = 1 \<and>
     Row (tile_distmap s) 0 0 = 32 \<and> Row (tile_distmap s) 0 1 = 0 \<and>
     distance s = 32 \<and> outer_iter s = 0 \<and> quant_max s = 4"

section \<open>Target-size controller\<close>

text \<open>
  Modelled from the spec: \<open>ScaleImage\<close> (image operations, not in the sources)
  multiplies every pixel by the scale, as in "sets the quantizer to
  \<open>(s' * q_dc, s * q_ac)\<close>".
\<close>

definition ScaleImage :: "real \<Rightarrow> real Image \<Rightarrow> real Image" where
  "ScaleImage scale im = im\<lparr>Row := \<lambda>y x. scale * Row im y x\<rparr>"

text \<open>
  \<open>ScaleQuantizationMap\<close>. The scales of the controller are embedded as reals
  and their arithmetic, which the source does partly in \<open>double\<close> and partly in
  \<open>float\<close>, is not rounded: what is proved of the controller below holds
  whatever the scales are.
\<close>

definition ScaleQuantizationMap ::
  "'img CompressedImageT \<Rightarrow> real \<Rightarrow> real Image \<Rightarrow> real \<Rightarrow> 'img \<Rightarrow> bool \<times> 'img" where
  "ScaleQuantizationMap env quant_dc quant_field_ac scale img =
     (let scale_dc = 0.8 * scale + 0.2;
          (changed, img1) =
             SetQuantField env (scale_dc * quant_dc) (ScaleImage scale quant_field_ac) img
      in (changed, Quantize env img1))"

text \<open>
  The local variables of \<open>CompressToTargetSize\<close>, with the image they act on.
  \<open>attempts\<close> is not a variable of the source: it records every candidate that
  \<open>img->Encode()\<close> produced, in order, so that the claims about "every attempt"
  can be stated.
\<close>

record 'img target_state =
  ts_img :: 'img
  scale_bad :: real
  scale_good :: real
  candidate :: "byte list"
  compressed :: "byte list"
  attempts :: "byte list list"

text \<open>The first loop: \<open>for (int i = 0; i < 10; ++i)\<close>, halving \<open>scale_good\<close>.\<close>

function halving_loop ::
  "'img CompressedImageT \<Rightarrow> real \<Rightarrow> real Image \<Rightarrow> nat \<Rightarrow> nat \<Rightarrow> 'img target_state
     \<Rightarrow> 'img target_state" where
  "halving_loop env quant_dc quant_ac target_sz i s =
     (if i < 10 then
        let img1 = snd (ScaleQuantizationMap env quant_dc quant_ac (scale_good s) (ts_img s));
            c = Encode env img1;
            s1 = s\<lparr>ts_img := img1, candidate := c, attempts := attempts s @ [c]\<rparr>
        in if length c \<le> target_sz then s1\<lparr>compressed := c\<rparr>
           else halving_loop env quant_dc quant_ac target_sz (i + 1)
                  (s1\<lparr>scale_bad := scale_good s1, scale_good := scale_good s1 * 0.5\<rparr>)
      else s)"
  by pat_completeness auto
termination
  by (relation "measure (\<lambda>(env, quant_dc, quant_ac, target_sz, i, s). 10 - i)") auto

text \<open>The second loop: \<open>for (int i = 0; i < 16; ++i)\<close>, bisecting between the scales.\<close>

function bisection_loop ::
  "'img CompressedImageT \<Rightarrow> real \<Rightarrow> real Image \<Rightarrow> nat \<Rightarrow> nat \<Rightarrow> 'img target_state
     \<Rightarrow> 'img target_state" where
  "bisection_loop env quant_dc quant_ac target_sz i s =
     (if i < 16 then
        let scale = 0.5 * (scale_bad s + scale_good s);
            (changed, img1) = ScaleQuantizationMap env quant_dc quant_ac scale (ts_img s)
        in if \<not> changed then s\<lparr>ts_img := img1\<rparr>
           else
             let c = Encode env img1;
                 s1 = s\<lparr>ts_img := img1, candidate := c, attempts := attempts s @ [c]\<rparr>
             in bisection_loop env quant_dc quant_ac target_sz (i + 1)
                  (if length c \<le> target_sz
                   then s1\<lparr>compressed := c, scale_good := scale\<rparr>
                   else s1\<lparr>scale_bad := scale\<rparr>)
      else s)"
  by pat_completeness auto
termination
  by (relation "measure (\<lambda>(env, quant_dc, quant_ac, target_sz, i, s). 16 - i)") auto

text \<open>
  \<open>CompressToTargetSize\<close> (the template taking the image): the returned string,
  together with the final state.
\<close>

definition CompressToTargetSize ::
  "'img CompressedImageT \<Rightarrow> nat \<Rightarrow> 'img \<Rightarrow> byte list \<times> 'img target_state" where
  "CompressToTargetSize env target_sz img =
     (let (quant_dc, quant_ac) = GetQuantField env img;
          s = halving_loop env quant_dc quant_ac target_sz 0
                \<lparr>ts_img = img, scale_bad = 1, scale_good = 1, candidate = [],
                 compressed = [], attempts = []\<rparr>
      in if compressed s = [] then (candidate s, s)
         else if scale_good s = 1 then (compressed s, s)
         else
           let s' = bisection_loop env quant_dc quant_ac target_sz 0 s
           in (compressed s', s'))"

text \<open>
  The two ways the first loop can end: with a candidate that fits, stored in
  \<open>compressed\<close>, or with no attempt that fits.
\<close>

definition fits_result :: "nat \<Rightarrow> 'img target_state \<Rightarrow> bool" where
  "fits_result target_sz s \<longleftrightarrow>
     attempts s \<noteq> [] \<and> candidate s = last (attempts s) \<and>
     compressed s = candidate s \<and> length (candidate s) \<le> target_sz"

definition none_fits :: "nat \<Rightarrow> 'img target_state \<Rightarrow> bool" where
  "none_fits target_sz s \<longleftrightarrow>
     (\<forall>c\<in>set (attempts s). target_sz < length c) \<and> compressed s = [] \<and>
     (attempts s \<noteq> [] \<longrightarrow> candidate s = last (attempts s))"

text \<open>
  A small instance of the operations, for concrete runs: a one-block image whose
  state is its quantisation value, kept in steps of a quarter; the encoding of
  value \<open>v\<close> has \<open>\<lfloor>8 * v\<rfloor> + 1\<close> bytes.
\<close>

definition toy_codec :: "real CompressedImageT" where
  "toy_codec =
     \<lparr>block_xsize = (\<lambda>_. 1), block_ysize = (\<lambda>_. 1),
      SetQuantField = (\<lambda>dc field img.
         (real_of_int \<lfloor>4 * Row field 0 0\<rfloor> / 4 \<noteq> img,
          real_of_int \<lfloor>4 * Row field 0 0\<rfloor> / 4)),
      GetQuantField = (\<lambda>img. (1, \<lparr>xsize = 1, ysize = 1, Row = \<lambda>y x. img\<rparr>)),
      Quantize = (\<lambda>img. img),
      Encode = (\<lambda>img. replicate (nat \<lfloor>8 * img\<rfloor> + 1) 0),
      Compare = (\<lambda>img. (\<lparr>xsize = 1, ysize = 1, Row = \<lambda>y x. 0\<rparr>, 0)),
      initial_distance = 0\<rparr>"


section \<open>Y-to-B correlation: the grid search Optimize\<close>

text \<open>
  The template parameter \<open>Eval\<close> of \<open>Optimize\<close>: an object with a call operator
  \<open>(*eval)(val)\<close>, which returns the objective (a \<open>size_t\<close>) and may change the
  state \<open>'s\<close> behind the evaluator, and a method \<open>SetVal\<close>.
\<close>

record 's Eval =
  eval_call :: "int \<Rightarrow> 's \<Rightarrow> nat \<times> 's"
  SetVal :: "int \<Rightarrow> 's \<Rightarrow> 's"

text \<open>
  The inner loop \<open>for (int val = start; val <= end; val += resolution)\<close>. Its
  state is \<open>best_val\<close>, \<open>*best_objval\<close> and the state behind the evaluator. The
  source runs it with resolutions 16, 4 and 1 only; the test \<open>0 < resolution\<close>
  makes the function total for the other values. The values stay between
  \<open>minval - 15\<close> and \<open>maxval + 16\<close>, far from the ends of \<open>int\<close> for the callers'
  \<open>[0, 255]\<close>, so the integers are unbounded here.
\<close>

function sweep ::
  "'s Eval \<Rightarrow> int \<Rightarrow> int \<Rightarrow> int \<Rightarrow> int \<times> nat \<times> 's \<Rightarrow> int \<times> nat \<times> 's" where
  "sweep eval resolution endv val (best_val, best_objval, s) =
     (if val \<le> endv \<and> 0 < resolution then
        let (objval, s') = eval_call eval val s
        in sweep eval resolution endv (val + resolution)
             (if objval < best_objval then (val, objval, s') else (best_val, best_objval, s'))
      else (best_val, best_objval, s))"
  by pat_completeness auto
termination
  by (relation "measure (\<lambda>(eval, resolution, endv, val, b). nat (endv - val + 1))") auto

text \<open>
  The outer loop \<open>for (int resolution = 16; resolution >= 1; resolution /= 4)\<close>,
  with \<open>start\<close> and \<open>end\<close> in its state.
\<close>

function resolution_loop ::
  "'s Eval \<Rightarrow> int \<Rightarrow> int \<Rightarrow> int \<Rightarrow> int \<times> int \<times> (int \<times> nat \<times> 's)
     \<Rightarrow> int \<times> int \<times> (int \<times> nat \<times> 's)" where
  "resolution_loop eval minval maxval resolution (start, endv, best) =
     (if resolution \<ge> 1 then
        let (best_val, best_objval, s) = sweep eval resolution endv start best;
            start' = max minval (best_val - resolution + 1);
            endv' = min maxval (best_val + resolution - 1)
        in resolution_loop eval minval maxval (resolution div 4)
             (start', endv', (best_val, best_objval, s))
      else (start, endv, best))"
  by pat_completeness auto
termination
  by (relation "measure (\<lambda>(eval, minval, maxval, resolution, st). nat resolution)") auto

text \<open>
  \<open>Optimize\<close> returns \<open>best_val\<close>; the embedding returns with it the final value
  of \<open>*best_objval\<close> and the state after \<open>eval->SetVal(best_val)\<close>.
\<close>

definition Optimize ::
  "'s Eval \<Rightarrow> int \<Rightarrow> int \<Rightarrow> int \<Rightarrow> nat \<Rightarrow> 's \<Rightarrow> int \<times> nat \<times> 's" where
  "Optimize eval minval maxval best_val best_objval s =
     (let (start, endv, (best_val', best_objval', s')) =
            resolution_loop eval minval maxval 16 (minval, maxval, (best_val, best_objval, s))
      in (best_val', best_objval', SetVal eval best_val' s'))"

text \<open>
  The words of the claim about \<open>Optimize\<close>. An evaluator computes the objective
  \<open>f\<close> when its call operator returns \<open>f val\<close> in every state. The objective is
  unimodal on \<open>[minval, maxval]\<close> with its minimum on \<open>[a, b]\<close> when it strictly
  decreases up to \<open>a\<close>, is constant from \<open>a\<close> to \<open>b\<close> and strictly increases from
  \<open>b\<close> on; \<open>a < b\<close> is a tie for the minimum.
\<close>

definition computes :: "'s Eval \<Rightarrow> (int \<Rightarrow> nat) \<Rightarrow> bool" where
  "computes eval f \<longleftrightarrow> (\<forall>val s. fst (eval_call eval val s) = f val)"

definition unimodal_on :: "(int \<Rightarrow> nat) \<Rightarrow> int \<Rightarrow> int \<Rightarrow> int \<Rightarrow> int \<Rightarrow> bool" where
  "unimodal_on f minval a b maxval \<longleftrightarrow>
     minval \<le> a \<and> a \<le> b \<and> b \<le> maxval \<and>
     (\<forall>x y. minval \<le> x \<and> x < y \<and> y \<le> a \<longrightarrow> f y < f x) \<and>
     (\<forall>x. a \<le> x \<and> x \<le> b \<longrightarrow> f x = f a) \<and>
     (\<forall>x y. b \<le> x \<and> x < y \<and> y \<le> maxval \<longrightarrow> f x < f y)"

text \<open>The values a sweep from \<open>start\<close> to \<open>end\<close> in steps of \<open>resolution\<close> visits.\<close>

definition grid :: "int \<Rightarrow> int \<Rightarrow> int \<Rightarrow> int set" where
  "grid start resolution endv = {x. start \<le> x \<and> x \<le> endv \<and> resolution dvd (x - start)}"

text \<open>
  An evaluator without state for an objective, an objective with a tie for its
  minimum, at 119 and 120, and one with its only minimum at 100.
\<close>

definition pure_eval :: "(int \<Rightarrow> nat) \<Rightarrow> unit Eval" where
  "pure_eval f = \<lparr>eval_call = (\<lambda>val s. (f val, s)), SetVal = (\<lambda>val s. s)\<rparr>"

definition tie_objective :: "int \<Rightarrow> nat" where
  "tie_objective v = (if v \<le> 119 then nat (119 - v) else nat (v - 120))"

definition vee_objective :: "int \<Rightarrow> nat" where
  "vee_objective v = nat \<bar>v - 100\<bar>"

section \<open>The encode and decode pipelines\<close>

text \<open>
  \<open>PIK_FAILURE(message)\<close> makes the function return false; the embedding
  returns which failure it was. A failing call of a collaborator that returns
  false itself has an error of its own.
\<close>

datatype pik_error =
    EmptyImageError
  | NotImplemented
  | StoreHeaderFailed
  | EmptyInput
  | LoadHeaderFailed
  | TruncatedHeader
  | InvalidFormatCode
  | ImageTooWide
  | ImageTooBig
  | DecodingFailed
  | AlphaFailed
  | SizeMismatch

record CompressParams =
  butteraugli_distance :: real
  target_bitrate :: real
  uniform_quant :: real
  fast_mode :: bool
  max_butteraugli_iters :: int
  alpha_channel :: bool

text \<open>
  The container header (\<open>header.h\<close> is not in the sources; the fields and the
  flag \<open>kAlpha = 1\<close> are those of the spec).
\<close>

record Header =
  hdr_xsize :: "32 word"
  hdr_ysize :: "32 word"
  flags :: "32 word"

definition kAlpha :: "32 word" where
  "kAlpha = 1"

text \<open>
  The branch of \<open>OpsinToPik\<close> that produced the payload. It is not a value of
  the source: the embedding returns it with the bytes so that the branch taken
  can be stated.
\<close>

datatype encoder_mode = PerceptualMode | TargetSizeMode | ConstantQuantMode | FastPipeline

text \<open>
  What \<open>OpsinToPik\<close> calls. The three compression paths are functions of
  \<open>pik.cc\<close> built from the rate control, the Y-to-B search and the operations of
  the compressed image; here they are parameters, with \<open>None\<close> for a call that
  does not return. \<open>StoreHeader\<close> returns the bytes of the header, or \<open>None\<close>
  for false.
\<close>

record ('p, 'img) Encoder =
  CompressToButteraugliDistance :: "'p Image \<Rightarrow> CompressParams \<Rightarrow> byte list option"
  CompressToTargetSizeOf :: "'p Image \<Rightarrow> CompressParams \<Rightarrow> nat \<Rightarrow> byte list option"
  CompressFast :: "'p Image \<Rightarrow> CompressParams \<Rightarrow> byte list option"
  FromOpsinImage :: "'p Image \<Rightarrow> 'img"
  SetQuant :: "real \<Rightarrow> 'img \<Rightarrow> 'img"
  image_ops :: "'img CompressedImageT"
  StoreHeader :: "Header \<Rightarrow> byte list option"

text \<open>
  The end of \<open>OpsinToPik\<close>, lines 591 to 604: the header is stored and the
  payload copied behind it.
\<close>

definition frame_payload ::
  "('p, 'img) Encoder \<Rightarrow> CompressParams \<Rightarrow> 'p Image \<Rightarrow> encoder_mode \<Rightarrow> byte list option
     \<Rightarrow> (pik_error + encoder_mode \<times> byte list) option" where
  "frame_payload env params opsin mode compressed_data =
     (case compressed_data of
        None \<Rightarrow> None
      | Some data \<Rightarrow>
          let header = \<lparr>hdr_xsize = word_of_int (xsize opsin),
                        hdr_ysize = word_of_int (ysize opsin),
                        flags = (if alpha_channel params then kAlpha else 0)\<rparr>
          in (case StoreHeader env header of
                None \<Rightarrow> Some (Inl StoreHeaderFailed)
              | Some header_bytes \<Rightarrow> Some (Inr (mode, header_bytes @ data))))"

definition OpsinToPik ::
  "('p, 'img) Encoder \<Rightarrow> CompressParams \<Rightarrow> 'p Image
     \<Rightarrow> (pik_error + encoder_mode \<times> byte list) option" where
  "OpsinToPik env params opsin =
     (if xsize opsin = 0 \<or> ysize opsin = 0 then Some (Inl EmptyImageError)
      else if butteraugli_distance params \<ge> 0 then
        frame_payload env params opsin PerceptualMode
          (CompressToButteraugliDistance env opsin params)
      else if target_bitrate params > 0 then
        let target_sz =
              nat \<lfloor>real_of_int (xsize opsin * ysize opsin) * target_bitrate params / 8\<rfloor>
        in frame_payload env params opsin TargetSizeMode
             (CompressToTargetSizeOf env opsin params target_sz)
      else if uniform_quant params > 0 then
        let img = FromOpsinImage env opsin;
            img1 = SetQuant env (uniform_quant params) img;
            img2 = Quantize (image_ops env) img1
        in frame_payload env params opsin ConstantQuantMode
             (Some (Encode (image_ops env) img2))
      else if fast_mode params then
        frame_payload env params opsin FastPipeline (CompressFast env opsin params)
      else Some (Inl NotImplemented))"

text \<open>
  The decoder. \<open>DecompressParams\<close>, the flag \<open>kWebPLossless\<close> and the
  collaborators are not in the sources: \<open>LoadHeader\<close> gives the header and the
  offset at which it ends, \<open>Decode\<close> the image of the given dimensions and the
  number of bytes read, \<open>PikToAlpha\<close> the alpha channel and the bytes read.
\<close>

record DecompressParams =
  check_decompressed_size :: bool
  max_num_pixels :: "64 word"

record ('img, 'planes, 'alpha) Decoder =
  LoadHeader :: "byte list \<Rightarrow> (Header \<times> nat) option"
  kWebPLossless :: "32 word"
  Decode :: "32 word \<Rightarrow> 32 word \<Rightarrow> byte list \<Rightarrow> ('img \<times> nat) option"
  ToImage3 :: "'img \<Rightarrow> 'planes"
  PikToAlpha :: "DecompressParams \<Rightarrow> nat \<Rightarrow> byte list \<Rightarrow> ('alpha \<times> nat) option"

text \<open>
  What a successful \<open>PikToPixelsT\<close> leaves behind: the colour planes and the
  alpha channel of the \<open>MetaImage\<close>, and \<open>aux_out->decoded_size\<close>.
\<close>

record ('planes, 'alpha) Decoded =
  color :: 'planes
  alpha :: "'alpha option"
  decoded_size :: nat

definition kMaxWidth :: "32 word" where
  "kMaxWidth = push_bit 25 1 - 1"

definition PikToPixelsT ::
  "('img, 'planes, 'alpha) Decoder \<Rightarrow> DecompressParams \<Rightarrow> byte list
     \<Rightarrow> pik_error + ('planes, 'alpha) Decoded" where
  "PikToPixelsT env params compressed_bytes =
     (if length compressed_bytes = 0 then Inl EmptyInput
      else case LoadHeader env compressed_bytes of
        None \<Rightarrow> Inl LoadHeaderFailed
      | Some (header, header_end) \<Rightarrow>
          if header_end > length compressed_bytes then Inl TruncatedHeader
          else if and (flags header) (kWebPLossless env) \<noteq> 0 then Inl InvalidFormatCode
          else if hdr_xsize header = 0 \<or> hdr_ysize header = 0 then Inl EmptyImageError
          else if hdr_xsize header > kMaxWidth then Inl ImageTooWide
          else
            let num_pixels = (ucast (hdr_xsize header) :: 64 word) * ucast (hdr_ysize header)
            in if num_pixels > max_num_pixels params then Inl ImageTooBig
               else case Decode env (hdr_xsize header) (hdr_ysize header)
                           (drop header_end compressed_bytes) of
                 None \<Rightarrow> Inl DecodingFailed
               | Some (img, bytes_read) \<Rightarrow>
                   let byte_pos = header_end + bytes_read;
                       planes = ToImage3 env img
                   in (case (if and (flags header) kAlpha \<noteq> 0
                             then (case PikToAlpha env params byte_pos compressed_bytes of
                                     None \<Rightarrow> Inl AlphaFailed
                                   | Some (a, alpha_read) \<Rightarrow> Inr (Some a, byte_pos + alpha_read))
                             else Inr (None, byte_pos)) of
                         Inl e \<Rightarrow> Inl e
                       | Inr (a, end_pos) \<Rightarrow>
                           if check_decompressed_size params \<and> end_pos \<noteq> length compressed_bytes
                           then Inl SizeMismatch
                           else Inr \<lparr>color = planes, alpha = a, decoded_size = end_pos\<rparr>))"

text \<open>Instances for concrete runs of the pipelines.\<close>

definition toy_encoder :: "(real, real) Encoder" where
  "toy_encoder =
     \<lparr>CompressToButteraugliDistance = (\<lambda>opsin params. Some [1]),
      CompressToTargetSizeOf = (\<lambda>opsin params target_sz. Some [2]),
      CompressFast = (\<lambda>opsin params. Some [4]),
      FromOpsinImage = (\<lambda>opsin. 1),
      SetQuant = (\<lambda>v img. v),
      image_ops = toy_codec,
      StoreHeader = (\<lambda>header. Some [0])\<rparr>"

definition toy_params :: "real \<Rightarrow> real \<Rightarrow> real \<Rightarrow> bool \<Rightarrow> CompressParams" where
  "toy_params bd tb uq fm =
     \<lparr>butteraugli_distance = bd, target_bitrate = tb, uniform_quant = uq, fast_mode = fm,
      max_butteraugli_iters = 10, alpha_channel = False\<rparr>"

definition toy_decoder :: "32 word \<Rightarrow> 32 word \<Rightarrow> (unit, unit, unit) Decoder" where
  "toy_decoder w h =
     \<lparr>LoadHeader = (\<lambda>bytes. Some (\<lparr>hdr_xsize = w, hdr_ysize = h, flags = 0\<rparr>, 1)),
      kWebPLossless = 2,
      Decode = (\<lambda>xs ys bytes. Some ((), length bytes)),
      ToImage3 = (\<lambda>img. ()),
      PikToAlpha = (\<lambda>params pos bytes. None)\<rparr>"

definition toy_decode_params :: DecompressParams where
  "toy_decode_params = \<lparr>check_decompressed_size = True, max_num_pixels = 1000\<rparr>"

section \<open>YUV conversion of a pixel\<close>

text \<open>
  The constants of \<open>yuv_convert.cc\<close>; \<open>double\<close> is embedded as \<^typ>\<open>real\<close>.
\<close>

definition kWeightR :: real where
  "kWeightR = 0.2126"

definition kWeightB :: real where
  "kWeightB = 0.0722"

definition kWeightG :: real where
  "kWeightG = 1.0 - kWeightR - kWeightB"

definition kWeightBc :: real where
  "kWeightBc = 1.0 - kWeightB"

definition kWeightRc :: real where
  "kWeightRc = 1.0 - kWeightR"

definition kScaleY :: real where
  "kScaleY = 219.0 / 255.0"

definition kScaleUV :: real where
  "kScaleUV = 112.0 / 255.0"

definition RGBtoYUVMatrix :: "real list" where
  "RGBtoYUVMatrix =
     [kWeightR * kScaleY,
      kWeightG * kScaleY,
      kWeightB * kScaleY,
      (- kWeightR / kWeightBc) * kScaleUV,
      (- kWeightG / kWeightBc) * kScaleUV,
      kScaleUV,
      kScaleUV,
      (- kWeightG / kWeightRc) * kScaleUV,
      (- kWeightB / kWeightRc) * kScaleUV]"

definition RGBtoYUVMatrixAdd :: "real list" where
  "RGBtoYUVMatrixAdd = [0.0625, 0.5, 0.5]"

definition YUVtoRGBMatrix :: "real list" where
  "YUVtoRGBMatrix =
     [1.0 / kScaleY,
      0.0,
      kWeightRc / kScaleUV,
      1.0 / kScaleY,
      - kWeightBc * kWeightB / kWeightG / kScaleUV,
      - kWeightRc * kWeightR / kWeightG / kScaleUV,
      1.0 / kScaleY,
      kWeightBc / kScaleUV,
      0.0]"

text \<open>
  The conversion \<open>(uint16_t) x\<close> of a \<open>double\<close>: the value is truncated towards
  zero, and the behaviour is undefined (\<open>None\<close>) when the truncated value is not
  one of \<open>uint16_t\<close>.
\<close>

definition to_uint16 :: "real \<Rightarrow> 16 word option" where
  "to_uint16 x =
     (let t = (if 0 \<le> x then \<lfloor>x\<rfloor> else \<lceil>x\<rceil>)
      in if 0 \<le> t \<and> t \<le> 65535 then Some (word_of_int t) else None)"

text \<open>
  The macro \<open>clamp(V, M)\<close>: the value under the cast, and the macro itself.
\<close>

definition clamp_value :: "real \<Rightarrow> real \<Rightarrow> real" where
  "clamp_value V M = (if V < 0 then 0 else if V > M then M else V)"

definition clamp :: "real \<Rightarrow> real \<Rightarrow> 16 word option" where
  "clamp V M = to_uint16 (clamp_value V M)"

text \<open>
  The expression \<open>1 << n\<close> on \<open>int\<close>: defined for \<open>0 \<le> n \<le> 30\<close>, undefined
  (\<open>None\<close>) for a negative count and where the result is not an \<open>int\<close>.
\<close>

definition shift_one :: "int \<Rightarrow> int option" where
  "shift_one n = (if 0 \<le> n \<and> n \<le> 30 then Some (2 ^ nat n) else None)"

text \<open>
  \<open>YUVPixelToRGB\<close> to \<open>double\<close>. For \<open>bits = 0\<close> the source divides by zero
  and its results are not numbers; the embedding has \<open>None\<close> there.
\<close>

definition YUVPixelToRGB ::
  "16 word \<Rightarrow> 16 word \<Rightarrow> 16 word \<Rightarrow> int \<Rightarrow> (real \<times> real \<times> real) option" where
  "YUVPixelToRGB yv uv vv bits =
     (case shift_one bits of
        None \<Rightarrow> None
      | Some p \<Rightarrow>
          if p - 1 = 0 then None
          else
            let norm = 1 / real_of_int (p - 1);
                y = real (unat yv) * norm - RGBtoYUVMatrixAdd ! 0;
                u = real (unat uv) * norm - RGBtoYUVMatrixAdd ! 1;
                v = real (unat vv) * norm - RGBtoYUVMatrixAdd ! 2
            in Some (YUVtoRGBMatrix ! 0 * y + YUVtoRGBMatrix ! 1 * u + YUVtoRGBMatrix ! 2 * v,
                     YUVtoRGBMatrix ! 3 * y + YUVtoRGBMatrix ! 4 * u + YUVtoRGBMatrix ! 5 * v,
                     YUVtoRGBMatrix ! 6 * y + YUVtoRGBMatrix ! 7 * u + YUVtoRGBMatrix ! 8 * v))"

text \<open>
  The template \<open>YUVPixelToRGB<T>\<close>, which the source instantiates for
  \<open>uint8_t\<close> and \<open>uint16_t\<close>. The assignment \<open>*r = clamp(...)\<close> converts the
  \<open>uint16_t\<close> to \<open>T\<close>, that is modulo \<open>2 ^ (8 * sizeof(T))\<close>; the stored values
  are given as numbers.
\<close>

datatype sample_type = UInt8 | UInt16

fun sizeof :: "sample_type \<Rightarrow> nat" where
  "sizeof UInt8 = 1"
| "sizeof UInt16 = 2"

definition store_sample :: "sample_type \<Rightarrow> 16 word \<Rightarrow> nat" where
  "store_sample T w = unat w mod 2 ^ (8 * sizeof T)"

definition YUVPixelToRGB_T ::
  "sample_type \<Rightarrow> 16 word \<Rightarrow> 16 word \<Rightarrow> 16 word \<Rightarrow> int \<Rightarrow> (nat \<times> nat \<times> nat) option" where
  "YUVPixelToRGB_T T yv uv vv bits =
     (case shift_one (8 * int (sizeof T)) of
        None \<Rightarrow> None
      | Some p \<Rightarrow>
          let maxv_out = p - 1
          in (case YUVPixelToRGB yv uv vv bits of
                None \<Rightarrow> None
              | Some (rd, gd, bd) \<Rightarrow>
                  (case (clamp (0.5 + real_of_int maxv_out * rd) (real_of_int maxv_out),
                         clamp (0.5 + real_of_int maxv_out * gd) (real_of_int maxv_out),
                         clamp (0.5 + real_of_int maxv_out * bd) (real_of_int maxv_out)) of
                     (Some r, Some g, Some b) \<Rightarrow>
                       Some (store_sample T r, store_sample T g, store_sample T b)
                   | _ \<Rightarrow> None)))"

text \<open>\<open>RGBPixelToYUV\<close> from \<open>double\<close>.\<close>

definition RGBPixelToYUV ::
  "real \<Rightarrow> real \<Rightarrow> real \<Rightarrow> int \<Rightarrow> (16 word \<times> 16 word \<times> 16 word) option" where
  "RGBPixelToYUV r g b bits =
     (case shift_one bits of
        None \<Rightarrow> None
      | Some p \<Rightarrow>
          let maxv = real_of_int (p - 1);
              Y = RGBtoYUVMatrixAdd ! 0 +
                    RGBtoYUVMatrix ! 0 * r +
                    RGBtoYUVMatrix ! 1 * g +
                    RGBtoYUVMatrix ! 2 * b;
              U = RGBtoYUVMatrixAdd ! 1 +
                    RGBtoYUVMatrix ! 3 * r +
                    RGBtoYUVMatrix ! 4 * g +
                    RGBtoYUVMatrix ! 5 * b;
              V = RGBtoYUVMatrixAdd ! 2 +
                    RGBtoYUVMatrix ! 6 * r +
                    RGBtoYUVMatrix ! 7 * g +
                    RGBtoYUVMatrix ! 8 * b
          in (case (clamp (0.5 + maxv * Y) maxv,
                    clamp (0.5 + maxv * U) maxv,
                    clamp (0.5 + maxv * V) maxv) of
                (Some y, Some u, Some v) \<Rightarrow> Some (y, u, v)
              | _ \<Rightarrow> None))"

section \<open>Properties of the rounding\<close>

lemma pow2_pos: "0 < (2::real) powi e"
  by (simp add: zero_less_power_int)

lemma pow2_nat: "0 \<le> e \<Longrightarrow> (2::real) powi e = 2 ^ nat e"
  by (simp add: power_int_def)

lemma pow2_neg: "0 \<le> e \<Longrightarrow> (2::real) powi (- e) = 1 / 2 ^ nat e"
  by (simp add: power_int_def field_simps)

lemma expo_bounds:
  assumes "0 < x"
  shows "2 powi (expo x) \<le> x" and "x < 2 powi (expo x + 1)"
proof -
  have "2 powi (expo x) \<le> x \<and> x < 2 powi (expo x + 1)"
  proof (cases "1 \<le> x")
    case True
    define k where "k = \<lfloor>x\<rfloor>"
    have k: "0 < k" using True by (simp add: k_def)
    define b where "b = bitlen k"
    have b1: "1 \<le> b" using k by (simp add: b_def bitlen_alt_def)
    have e: "expo x = b - 1" using True by (simp add: expo_def b_def k_def)
    from bitlen_bounds [OF k] have lo: "2 ^ nat (b - 1) \<le> k" and hi: "k < 2 ^ nat b"
      by (simp_all add: b_def)
    have "real_of_int (2 ^ nat (b - 1)) \<le> real_of_int k" using lo by linarith
    also have "\<dots> \<le> x" by (simp add: k_def)
    finally have 1: "2 powi (b - 1) \<le> x" using b1 by (simp add: pow2_nat)
    have "k + 1 \<le> 2 ^ nat b" using hi by simp
    then have "real_of_int (k + 1) \<le> real_of_int (2 ^ nat b)" by linarith
    moreover have "x < real_of_int (k + 1)" by (simp add: k_def)
    ultimately have "x < 2 ^ nat b" by simp
    then have 2: "x < 2 powi b" using b1 by (simp add: pow2_nat)
    show ?thesis using 1 2 by (simp add: e)
  next
    case False
    then have x1: "x < 1" by simp
    then have inv: "1 < 1 / x" using assms by simp
    define c where "c = \<lceil>1 / x\<rceil>"
    have c2: "2 \<le> c" using inv unfolding c_def by linarith
    define k where "k = c - 1"
    have k: "0 < k" using c2 by (simp add: k_def)
    define b where "b = bitlen k"
    have b1: "1 \<le> b" using k by (simp add: b_def bitlen_alt_def)
    have e: "expo x = - b" using False by (simp add: expo_def b_def k_def c_def)
    from bitlen_bounds [OF k] have lo: "2 ^ nat (b - 1) \<le> k" and hi: "k < 2 ^ nat b"
      by (simp_all add: b_def)
    have "c \<le> 2 ^ nat b" using hi by (simp add: k_def)
    then have "real_of_int c \<le> 2 ^ nat b"
      using of_int_le_iff [of c "2 ^ nat b", where 'a = real] by simp
    moreover have "1 / x \<le> real_of_int c" by (simp add: c_def)
    ultimately have "1 / x \<le> 2 ^ nat b" by linarith
    then have "1 / 2 ^ nat b \<le> x"
      using assms by (simp add: field_simps)
    then have 1: "2 powi (- b) \<le> x" using b1 by (simp add: pow2_neg)
    have "2 ^ nat (b - 1) < c" using lo by (simp add: k_def)
    then have "real_of_int (2 ^ nat (b - 1)) < 1 / x"
      unfolding c_def by (simp add: less_ceiling_iff)
    then have "2 ^ nat (b - 1) < 1 / x" by simp
    then have "x < 1 / 2 ^ nat (b - 1)"
      using assms by (simp add: field_simps)
    moreover have "(2::real) powi (- b + 1) = 1 / 2 ^ nat (b - 1)"
      using pow2_neg [of "b - 1"] b1 by simp
    ultimately have 2: "x < 2 powi (- b + 1)" by simp
    show ?thesis using 1 2 by (simp add: e)
  qed
  then show "2 powi (expo x) \<le> x" and "x < 2 powi (expo x + 1)" by simp_all
qed

lemma expo_unique:
  assumes "0 < x" "2 powi e \<le> x" "x < 2 powi (e + 1)"
  shows "expo x = e"
proof (rule antisym)
  show "expo x \<le> e"
  proof (rule ccontr)
    assume "\<not> expo x \<le> e"
    then have "e + 1 \<le> expo x" by simp
    then have "(2::real) powi (e + 1) \<le> 2 powi (expo x)"
      by (intro power_int_increasing) simp_all
    with expo_bounds(1) [OF assms(1)] assms(3) show False by linarith
  qed
  show "e \<le> expo x"
  proof (rule ccontr)
    assume "\<not> e \<le> expo x"
    then have "expo x + 1 \<le> e" by simp
    then have "(2::real) powi (expo x + 1) \<le> 2 powi e"
      by (intro power_int_increasing) simp_all
    with expo_bounds(2) [OF assms(1)] assms(2) show False by linarith
  qed
qed

lemma expo_mono:
  assumes "0 < x" "x \<le> y"
  shows "expo x \<le> expo y"
proof (rule ccontr)
  assume "\<not> expo x \<le> expo y"
  then have "expo y + 1 \<le> expo x" by simp
  then have "(2::real) powi (expo y + 1) \<le> 2 powi (expo x)"
    by (intro power_int_increasing) simp_all
  moreover have "0 < y" using assms by linarith
  ultimately show False
    using expo_bounds(1) [OF assms(1)] expo_bounds(2) [of y] assms(2) by linarith
qed

lemma rne_int: "rne (real_of_int n) = n"
  by (simp add: rne_def)

lemma rne_range: "\<lfloor>y\<rfloor> \<le> rne y \<and> rne y \<le> \<lfloor>y\<rfloor> + 1"
  by (simp add: rne_def Let_def)

lemma rne_mono:
  assumes "y \<le> z"
  shows "rne y \<le> rne z"
proof (cases "\<lfloor>y\<rfloor> < \<lfloor>z\<rfloor>")
  case True
  then show ?thesis using rne_range [of y] rne_range [of z] by linarith
next
  case False
  then have eq: "\<lfloor>y\<rfloor> = \<lfloor>z\<rfloor>" using assms floor_mono [OF assms] by linarith
  show ?thesis
    using assms unfolding rne_def Let_def eq by auto
qed

lemma rne_nonneg: "0 \<le> y \<Longrightarrow> 0 \<le> rne y"
  using rne_mono [of 0 y] rne_int [of 0] by simp

lemma fl_0: "fl 0 = 0"
  by (simp add: fl_def)

lemma fl_minus: "fl (- x) = - fl x"
  by (simp add: fl_def Let_def sgn_if)

lemma fl_pos:
  assumes "0 < x"
  shows "fl x = real_of_int (rne (x / 2 powi (max (expo x) (- 126) - 23))) *
                2 powi (max (expo x) (- 126) - 23)"
  using assms by (simp add: fl_def Let_def)

lemma fl_nonneg: "0 \<le> x \<Longrightarrow> 0 \<le> fl x"
proof (cases "x = 0")
  case True
  then show ?thesis by (simp add: fl_0)
next
  case False
  assume "0 \<le> x"
  with False have x: "0 < x" by simp
  have "0 \<le> x / 2 powi (max (expo x) (- 126) - 23)"
    using x pow2_pos [of "max (expo x) (- 126) - 23"] by simp
  then have "0 \<le> rne (x / 2 powi (max (expo x) (- 126) - 23))" by (rule rne_nonneg)
  then show ?thesis
    unfolding fl_pos [OF x] using pow2_pos [of "max (expo x) (- 126) - 23"] by simp
qed


lemma pow2_split:
  "(2::real) powi (e + 1) = 2 ^ 24 * 2 powi (e - 23)"
  "(2::real) powi e = 2 ^ 23 * 2 powi (e - 23)"
proof -
  have "(2::real) powi (24 + (e - 23)) = 2 powi 24 * 2 powi (e - 23)"
    by (rule power_int_add) simp
  moreover have "24 + (e - 23) = e + 1" by simp
  ultimately show "(2::real) powi (e + 1) = 2 ^ 24 * 2 powi (e - 23)" by simp
  have "(2::real) powi (23 + (e - 23)) = 2 powi 23 * 2 powi (e - 23)"
    by (rule power_int_add) simp
  moreover have "23 + (e - 23) = e" by simp
  ultimately show "(2::real) powi e = 2 ^ 23 * 2 powi (e - 23)" by simp
qed

lemma fl_binade:
  assumes "0 < x"
  shows "fl x \<le> 2 powi (max (expo x) (- 126) + 1)"
    and "- 126 \<le> expo x \<Longrightarrow> 2 powi (expo x) \<le> fl x"
proof -
  define e where "e = max (expo x) (- 126)"
  define u where "u = (2::real) powi (e - 23)"
  define hi where "hi = (2::real) powi (e + 1)"
  define lo where "lo = (2::real) powi e"
  have u: "0 < u" by (simp add: u_def pow2_pos)
  have f: "fl x = real_of_int (rne (x / u)) * u"
    using fl_pos [OF assms] by (simp add: e_def u_def)
  have s1: "hi = 2 ^ 24 * u" unfolding hi_def u_def by (rule pow2_split(1))
  have s0: "lo = 2 ^ 23 * u" unfolding lo_def u_def by (rule pow2_split(2))
  have "x < 2 powi (expo x + 1)" by (rule expo_bounds(2) [OF assms])
  also have "\<dots> \<le> hi"
    unfolding hi_def by (intro power_int_increasing) (simp_all add: e_def)
  finally have "x < 2 ^ 24 * u" by (simp only: s1)
  then have "x / u \<le> real_of_int (2 ^ 24)"
    using u by (simp add: field_simps)
  from rne_mono [OF this] have "rne (x / u) \<le> 2 ^ 24"
    by (simp only: rne_int)
  then have "real_of_int (rne (x / u)) \<le> 2 ^ 24"
    using of_int_le_iff [of "rne (x / u)" "2 ^ 24", where 'a = real] by simp
  then have "real_of_int (rne (x / u)) * u \<le> 2 ^ 24 * u"
    using u by (simp add: mult_right_mono)
  then have "fl x \<le> hi" by (simp only: f s1)
  then show "fl x \<le> 2 powi (max (expo x) (- 126) + 1)"
    by (simp only: hi_def e_def)
  assume n: "- 126 \<le> expo x"
  then have ee: "e = expo x" by (simp add: e_def)
  have "lo \<le> x" unfolding lo_def ee by (rule expo_bounds(1) [OF assms])
  then have "2 ^ 23 * u \<le> x" by (simp only: s0)
  then have "real_of_int (2 ^ 23) \<le> x / u"
    using u by (simp add: field_simps)
  from rne_mono [OF this] have "2 ^ 23 \<le> rne (x / u)"
    by (simp only: rne_int)
  then have "2 ^ 23 \<le> real_of_int (rne (x / u))"
    using of_int_le_iff [of "2 ^ 23" "rne (x / u)", where 'a = real] by simp
  then have "2 ^ 23 * u \<le> real_of_int (rne (x / u)) * u"
    using u by (simp add: mult_right_mono)
  then have "lo \<le> fl x" by (simp only: f s0)
  then show "2 powi (expo x) \<le> fl x"
    by (simp only: lo_def ee)
qed

lemma fl_mono_pos:
  assumes "0 < x" "x \<le> y"
  shows "fl x \<le> fl y"
proof -
  have y: "0 < y" using assms by linarith
  define ex where "ex = max (expo x) (- 126)"
  define ey where "ey = max (expo y) (- 126)"
  have le: "ex \<le> ey"
    using expo_mono [OF assms] by (simp add: ex_def ey_def)
  show ?thesis
  proof (cases "ex = ey")
    case True
    define u where "u = (2::real) powi (ex - 23)"
    have u: "0 < u" by (simp add: u_def pow2_pos)
    have fx: "fl x = real_of_int (rne (x / u)) * u"
      using fl_pos [OF assms(1)] by (simp add: ex_def u_def)
    have fy: "fl y = real_of_int (rne (y / u)) * u"
      using fl_pos [OF y] True by (simp add: ey_def u_def)
    have "x / u \<le> y / u" using assms(2) u by (simp add: divide_right_mono)
    from rne_mono [OF this] have "real_of_int (rne (x / u)) \<le> real_of_int (rne (y / u))"
      by simp
    then show ?thesis
      unfolding fx fy using u by (simp add: mult_right_mono)
  next
    case False
    with le have lt: "ex < ey" by simp
    then have n: "- 126 \<le> expo y" and ey: "ey = expo y"
      by (simp_all add: ex_def ey_def max_def split: if_splits)
    have "fl x \<le> 2 powi (ex + 1)"
      using fl_binade(1) [OF assms(1)] by (simp add: ex_def)
    also have "\<dots> \<le> 2 powi ey"
      using lt by (intro power_int_increasing) simp_all
    also have "\<dots> \<le> fl y"
      unfolding ey by (rule fl_binade(2) [OF y n])
    finally show ?thesis .
  qed
qed

lemma fl_mono:
  assumes "x \<le> y"
  shows "fl x \<le> fl y"
proof -
  consider "0 < x" | "x \<le> 0" "0 \<le> y" | "y < 0" using assms by linarith
  then show ?thesis
  proof cases
    case 1
    then show ?thesis using assms by (rule fl_mono_pos)
  next
    case 2
    have "fl x = - fl (- x)" by (simp add: fl_minus)
    moreover have "0 \<le> fl (- x)" using 2(1) by (intro fl_nonneg) simp
    moreover have "0 \<le> fl y" using 2(2) by (rule fl_nonneg)
    ultimately show ?thesis by linarith
  next
    case 3
    then have "0 < - y" "- y \<le> - x" using assms by simp_all
    from fl_mono_pos [OF this] show ?thesis by (simp add: fl_minus)
  qed
qed

lemma fl_eval:
  assumes "0 < x" "2 powi e \<le> x" "x < 2 powi (e + 1)" "- 126 \<le> e"
  shows "fl x = real_of_int (rne (x / 2 powi (e - 23))) * 2 powi (e - 23)"
  using fl_pos [OF assms(1)] expo_unique [OF assms(1,2,3)] assms(4) by simp

lemma fl_eval_subnormal:
  assumes "0 < x" "x < 2 powi (- 126)"
  shows "fl x = real_of_int (rne (x / 2 powi (- 149))) * 2 powi (- 149)"
proof -
  have "expo x < - 126"
  proof (rule ccontr)
    assume "\<not> expo x < - 126"
    then have "(2::real) powi (- 126) \<le> 2 powi (expo x)"
      by (intro power_int_increasing) simp_all
    with expo_bounds(1) [OF assms(1)] assms(2) show False by linarith
  qed
  then have "max (expo x) (- 126) = - 126" by simp
  then show ?thesis using fl_pos [OF assms(1)] by simp
qed

section \<open>Properties of DistToPeakMap\<close>

lemma fold_max_Max:
  "fold (\<lambda>x m. max m (f x)) xs (m0::real) = Max (insert m0 (f ` set xs))"
proof (induction xs arbitrary: m0)
  case Nil
  then show ?case by simp
next
  case (Cons a xs)
  have "Max (insert (max m0 (f a)) (f ` set xs)) = Max (insert m0 (insert (f a) (f ` set xs)))"
  proof (cases "set xs = {}")
    case True
    then show ?thesis by (simp add: max.commute)
  next
    case False
    then show ?thesis by (simp add: max.assoc)
  qed
  with Cons show ?case by simp
qed

lemma fold_fold_max_Max:
  "fold (\<lambda>y. fold (\<lambda>x m. max m (f y x)) xs) ys (m0::real) =
   Max (insert m0 ((\<lambda>(y, x). f y x) ` (set ys \<times> set xs)))"
proof (induction ys arbitrary: m0)
  case Nil
  then show ?case by simp
next
  case (Cons a ys)
  let ?A = "f a ` set xs"
  let ?B = "(\<lambda>(y, x). f y x) ` (set ys \<times> set xs)"
  have img: "(\<lambda>(y, x). f y x) ` (set (a # ys) \<times> set xs) = ?A \<union> ?B"
    by auto
  have fin: "finite ?A" "finite ?B" by auto
  have "fold (\<lambda>y. fold (\<lambda>x m. max m (f y x)) xs) (a # ys) m0 =
        Max (insert (Max (insert m0 ?A)) ?B)"
    by (simp add: Cons fold_max_Max)
  also have "\<dots> = Max (insert m0 (?A \<union> ?B))"
  proof (rule antisym)
    show "Max (insert (Max (insert m0 ?A)) ?B) \<le> Max (insert m0 (?A \<union> ?B))"
      using fin by (auto intro!: Max.boundedI Max_ge)
    show "Max (insert m0 (?A \<union> ?B)) \<le> Max (insert (Max (insert m0 ?A)) ?B)"
      using fin
      by (intro Max.boundedI) (auto intro: Max_ge_iff [THEN iffD2] simp: Max_ge_iff)
  qed
  finally show ?case unfolding img .
qed


lemma set_pixel_same: "set_pixel img y x (Row img y x) = img"
  by (simp add: set_pixel_def)

lemma Row_set_pixel: "Row (set_pixel img y x v) y' x' = (if y' = y \<and> x' = x then v else Row img y' x')"
  by (simp add: set_pixel_def)

lemma sizes_set_pixel [simp]: "xsize (set_pixel img y x v) = xsize img" "ysize (set_pixel img y x v) = ysize img"
  by (simp_all add: set_pixel_def)

lemma fold_row_update:
  assumes "distinct xs"
  shows "Row (fold (\<lambda>x res. set_pixel res y x (g x (Row res y x))) xs res) y' x' =
         (if y' = y \<and> x' \<in> set xs then g x' (Row res y' x') else Row res y' x')"
  using assms
proof (induction xs arbitrary: res)
  case Nil
  then show ?case by simp
next
  case (Cons a xs)
  then show ?case by (auto simp: Row_set_pixel)
qed

lemma fold_rows_update:
  assumes "distinct xs" "distinct ys"
  shows "Row (fold (\<lambda>y. fold (\<lambda>x res. set_pixel res y x (g y x (Row res y x))) xs) ys res) y' x' =
         (if y' \<in> set ys \<and> x' \<in> set xs then g y' x' (Row res y' x') else Row res y' x')"
  using assms(2)
proof (induction ys arbitrary: res)
  case Nil
  then show ?case by simp
next
  case (Cons a ys)
  then show ?case by (auto simp: fold_row_update [OF assms(1)])
qed

lemma fold_rows_sizes:
  "xsize (fold (\<lambda>y. fold (\<lambda>x res. set_pixel res y x (g y x (Row res y x))) xs) ys res) = xsize res \<and>
   ysize (fold (\<lambda>y. fold (\<lambda>x res. set_pixel res y x (g y x (Row res y x))) xs) ys res) = ysize res"
proof (induction ys arbitrary: res)
  case Nil
  then show ?case by simp
next
  case (Cons a ys)
  have "xsize (fold (\<lambda>x res. set_pixel res a x (g a x (Row res a x))) xs res) = xsize res \<and>
        ysize (fold (\<lambda>x res. set_pixel res a x (g a x (Row res a x))) xs res) = ysize res"
    by (induction xs arbitrary: res) simp_all
  with Cons show ?case by simp
qed

lemma write_step_eq:
  "(if Row r y x < 0 \<or> Row r y x > d then set_pixel r y x d else r) =
   set_pixel r y x (upd_dist d (Row r y x))"
  by (simp add: upd_dist_def set_pixel_same)

lemma write_peak_dists_alt:
  "write_peak_dists x0 y0 x_min x_max y_min y_max result =
   fold (\<lambda>y. fold (\<lambda>x res. set_pixel res y x
            (upd_dist (real_of_int (max \<bar>y - y0\<bar> \<bar>x - x0\<bar>)) (Row res y x)))
          [x_min..x_max - 1]) [y_min..y_max - 1] result"
  unfolding write_peak_dists_def Let_def write_step_eq ..

lemma Row_write_peak_dists:
  "Row (write_peak_dists x0 y0 x_min x_max y_min y_max result) y x =
   (if y_min \<le> y \<and> y < y_max \<and> x_min \<le> x \<and> x < x_max
    then upd_dist (real_of_int (max \<bar>y - y0\<bar> \<bar>x - x0\<bar>)) (Row result y x)
    else Row result y x)"
proof -
  have d: "distinct [x_min..x_max - 1]" "distinct [y_min..y_max - 1]" by simp_all
  have s: "y \<in> set [y_min..y_max - 1] \<longleftrightarrow> y_min \<le> y \<and> y < y_max"
     "x \<in> set [x_min..x_max - 1] \<longleftrightarrow> x_min \<le> x \<and> x < x_max" by auto
  show ?thesis
    unfolding write_peak_dists_alt
    unfolding fold_rows_update [OF d, of "\<lambda>y x. upd_dist (real_of_int (max \<bar>y - y0\<bar> \<bar>x - x0\<bar>))"]
    unfolding s conj_assoc ..
qed


lemma chebyshev_nonneg: "0 \<le> chebyshev c p"
  by (simp add: chebyshev_def)

lemma upd_dist_unset: "0 \<le> d \<Longrightarrow> upd_dist d (- 1) = d"
  by (simp add: upd_dist_def)

lemma upd_dist_min:
  "0 \<le> m \<Longrightarrow> upd_dist (real_of_int d) (real_of_int m) = real_of_int (min d m)"
  unfolding upd_dist_def min_def by simp

lemma covering_in_insert:
  "covering_in field \<tau> r w (insert p S) c =
     (if is_peak field \<tau> r w p \<and> c \<in> neighbourhood field r p
      then insert p (covering_in field \<tau> r w S c) else covering_in field \<tau> r w S c)"
  unfolding covering_in_def by auto

lemma finite_covering_in: "finite S \<Longrightarrow> finite (covering_in field \<tau> r w S c)"
  unfolding covering_in_def by simp

lemma peak_val_insert:
  assumes "finite S"
  shows "peak_val field \<tau> r w (insert p S) c =
         (if is_peak field \<tau> r w p \<and> c \<in> neighbourhood field r p
          then upd_dist (real_of_int (chebyshev c p)) (peak_val field \<tau> r w S c)
          else peak_val field \<tau> r w S c)"
proof (cases "is_peak field \<tau> r w p \<and> c \<in> neighbourhood field r p")
  case False
  show ?thesis
    unfolding peak_val_def covering_in_insert if_not_P [OF False] ..
next
  case cond: True
  define P where "P = covering_in field \<tau> r w S c"
  have fin: "finite P"
    using assms by (simp add: P_def finite_covering_in)
  have eq: "covering_in field \<tau> r w (insert p S) c = insert p P"
    using cond by (simp add: covering_in_insert P_def)
  show ?thesis
  proof (cases "P = {}")
    case True
    have "peak_val field \<tau> r w (insert p S) c = real_of_int (chebyshev c p)"
      unfolding peak_val_def eq using True by simp
    moreover have "peak_val field \<tau> r w S c = - 1"
      unfolding peak_val_def P_def [symmetric] using True by simp
    ultimately show ?thesis
      using cond upd_dist_unset [of "real_of_int (chebyshev c p)"] chebyshev_nonneg [of c p]
      by simp
  next
    case False
    have "Min (chebyshev c ` insert p P) = min (chebyshev c p) (Min (chebyshev c ` P))"
      using fin False by simp
    then have "peak_val field \<tau> r w (insert p S) c =
               real_of_int (min (chebyshev c p) (Min (chebyshev c ` P)))"
      unfolding peak_val_def eq by simp
    moreover have "peak_val field \<tau> r w S c = real_of_int (Min (chebyshev c ` P))"
      unfolding peak_val_def P_def [symmetric] using False by simp
    moreover have "0 \<le> Min (chebyshev c ` P)"
      using fin False by (simp add: chebyshev_nonneg)
    ultimately show ?thesis
      using cond upd_dist_min [of "Min (chebyshev c ` P)" "chebyshev c p"]
      by simp
  qed
qed


lemma neighbourhood_product:
  "neighbourhood field r (y0, x0) =
   set [max 0 (y0 - r)..min (ysize field) (y0 + 1 + r) - 1] \<times>
   set [max 0 (x0 - r)..min (xsize field) (x0 + 1 + r) - 1]"
  unfolding neighbourhood_def by auto

lemma local_max_in_Max:
  "local_max_in field \<tau> (max 0 (x0 - r)) (min (xsize field) (x0 + 1 + r))
      (max 0 (y0 - r)) (min (ysize field) (y0 + 1 + r)) =
   Max (insert \<tau> ((\<lambda>(y, x). Row field y x) ` neighbourhood field r (y0, x0)))"
  unfolding local_max_in_def neighbourhood_product
  by (rule fold_fold_max_Max)

lemma peak_step_cases:
  assumes "0 \<le> y0" "y0 < ysize field" "0 \<le> x0" "x0 < xsize field"
  shows "peak_step field \<tau> r w y0 x0 result =
         (if is_peak field \<tau> r w (y0, x0)
          then write_peak_dists x0 y0 (max 0 (x0 - r)) (min (xsize field) (x0 + 1 + r))
                 (max 0 (y0 - r)) (min (ysize field) (y0 + 1 + r)) result
          else result)"
  unfolding peak_step_def Let_def local_max_in_Max is_peak_def
  using assms by simp

lemma in_neighbourhood_iff:
  "(y, x) \<in> neighbourhood field r (y0, x0) \<longleftrightarrow>
   max 0 (y0 - r) \<le> y \<and> y < min (ysize field) (y0 + 1 + r) \<and>
   max 0 (x0 - r) \<le> x \<and> x < min (xsize field) (x0 + 1 + r)"
  unfolding neighbourhood_def by simp

lemma Row_peak_step:
  assumes "0 \<le> y0" "y0 < ysize field" "0 \<le> x0" "x0 < xsize field"
  shows "Row (peak_step field \<tau> r w y0 x0 result) y x =
         (if is_peak field \<tau> r w (y0, x0) \<and> (y, x) \<in> neighbourhood field r (y0, x0)
          then upd_dist (real_of_int (chebyshev (y, x) (y0, x0))) (Row result y x)
          else Row result y x)"
proof (cases "is_peak field \<tau> r w (y0, x0)")
  case False
  then show ?thesis
    unfolding peak_step_cases [OF assms] by simp
next
  case True
  have c: "chebyshev (y, x) (y0, x0) = max \<bar>y - y0\<bar> \<bar>x - x0\<bar>"
    unfolding chebyshev_def by simp
  show ?thesis
    unfolding peak_step_cases [OF assms] if_P [OF True] Row_write_peak_dists
      in_neighbourhood_iff c
    using True by simp
qed

lemma sizes_write_peak_dists:
  "xsize (write_peak_dists x0 y0 x_min x_max y_min y_max result) = xsize result \<and>
   ysize (write_peak_dists x0 y0 x_min x_max y_min y_max result) = ysize result"
  unfolding write_peak_dists_alt by (rule fold_rows_sizes)

lemma sizes_peak_step:
  "xsize (peak_step field \<tau> r w y0 x0 result) = xsize result \<and>
   ysize (peak_step field \<tau> r w y0 x0 result) = ysize result"
  unfolding peak_step_def Let_def by (simp add: sizes_write_peak_dists)


lemma fold_product:
  "fold (\<lambda>y. fold (\<lambda>x. f y x) xs) ys s = fold (\<lambda>(y, x). f y x) (List.product ys xs) s"
  by (induction ys arbitrary: s) (simp_all add: fold_map comp_def)

lemma raster_invariant:
  assumes "\<forall>p\<in>set ps. 0 \<le> fst p \<and> fst p < ysize field \<and> 0 \<le> snd p \<and> snd p < xsize field"
    and "finite S"
    and "\<forall>y x. Row res y x = peak_val field \<tau> r w S (y, x)"
  shows "Row (fold (\<lambda>(y0, x0). peak_step field \<tau> r w y0 x0) ps res) y x =
         peak_val field \<tau> r w (S \<union> set ps) (y, x)"
  using assms
proof (induction ps arbitrary: S res)
  case Nil
  then show ?case by simp
next
  case (Cons p ps)
  obtain y0 x0 where p: "p = (y0, x0)" by (cases p)
  have inside: "0 \<le> y0" "y0 < ysize field" "0 \<le> x0" "x0 < xsize field"
    using Cons.prems(1) by (simp_all add: p)
  define res' where "res' = peak_step field \<tau> r w y0 x0 res"
  have step: "\<forall>y x. Row res' y x = peak_val field \<tau> r w (insert p S) (y, x)"
    unfolding res'_def Row_peak_step [OF inside] peak_val_insert [OF Cons.prems(2)] p
    using Cons.prems(3) by simp
  have rest: "\<forall>q\<in>set ps. 0 \<le> fst q \<and> fst q < ysize field \<and> 0 \<le> snd q \<and> snd q < xsize field"
    using Cons.prems(1) by simp
  have "Row (fold (\<lambda>(y0, x0). peak_step field \<tau> r w y0 x0) ps res') y x =
        peak_val field \<tau> r w (insert p S \<union> set ps) (y, x)"
    using Cons.IH [OF rest _ step] Cons.prems(2) by simp
  then show ?case by (simp add: p res'_def)
qed

lemma sizes_raster:
  "xsize (fold (\<lambda>(y0, x0). peak_step field \<tau> r w y0 x0) ps res) = xsize res \<and>
   ysize (fold (\<lambda>(y0, x0). peak_step field \<tau> r w y0 x0) ps res) = ysize res"
  by (induction ps arbitrary: res) (auto simp: sizes_peak_step)

lemma DistToPeakMap_raster:
  "DistToPeakMap field \<tau> r w =
   fold (\<lambda>(y0, x0). peak_step field \<tau> r w y0 x0)
     (List.product [0..ysize field - 1] [0..xsize field - 1])
     (FilledImage (xsize field) (ysize field) (- 1))"
  unfolding DistToPeakMap_def by (rule fold_product)

lemma covering_in_all:
  "covering_in field \<tau> r w (set (List.product [0..ysize field - 1] [0..xsize field - 1])) c =
   covering_peaks field \<tau> r w c"
  unfolding covering_in_def covering_peaks_def is_peak_def by auto

lemma Row_DistToPeakMap:
  "Row (DistToPeakMap field \<tau> r w) y x =
   (if covering_peaks field \<tau> r w (y, x) = {} then - 1
    else real_of_int (Min (chebyshev (y, x) ` covering_peaks field \<tau> r w (y, x))))"
proof -
  let ?ps = "List.product [0..ysize field - 1] [0..xsize field - 1]"
  have inside: "\<forall>p\<in>set ?ps. 0 \<le> fst p \<and> fst p < ysize field \<and> 0 \<le> snd p \<and> snd p < xsize field"
    by auto
  have init: "\<forall>y x. Row (FilledImage (xsize field) (ysize field) (- 1)) y x =
                peak_val field \<tau> r w {} (y, x)"
    by (simp add: FilledImage_def peak_val_def covering_in_def)
  have "Row (DistToPeakMap field \<tau> r w) y x = peak_val field \<tau> r w ({} \<union> set ?ps) (y, x)"
    unfolding DistToPeakMap_raster
    by (rule raster_invariant [OF inside _ init]) simp
  then show ?thesis
    unfolding peak_val_def Un_empty_left covering_in_all .
qed

lemma fl_weight: "fl (13 / 20) = 5452595 / 8388608"
  by (simp add: fl_eval [where e = "- 1"] rne_def)

lemma fl_one_minus_weight: "fl (1 - 5452595 / 8388608) = 2936013 / 8388608"
  by (simp add: fl_eval [where e = "- 2"] rne_def)

lemma fl_low_term: "fl (2936013 / 8388608 * (9 / 8)) = 6606029 / 16777216"
  by (simp add: fl_eval [where e = "- 2"] rne_def)

lemma fl_high_term: "fl (5452595 / 8388608 * 32) = 5452595 / 262144"
  by (simp add: fl_eval [where e = 4] rne_def)

lemma fl_threshold_32: "fl (6606029 / 16777216 + 5452595 / 262144) = 2777907 / 131072"
  by (simp add: fl_eval [where e = 4] rne_def)

lemma peak_threshold_32:
  "fl (fl (fl (1 - fl (13 / 20)) * (9 / 8)) + fl (fl (13 / 20) * 32)) = 2777907 / 131072"
  by (simp only: fl_weight fl_one_minus_weight fl_low_term fl_high_term fl_threshold_32)

lemma peak_threshold_nonneg:
  assumes "0 \<le> w" "w \<le> 1" "0 \<le> \<tau>" "0 \<le> m"
  shows "0 \<le> fl (fl (fl (1 - w) * \<tau>) + fl (w * m))"
proof -
  have "0 \<le> fl (1 - w)" using assms by (intro fl_nonneg) simp
  then have "0 \<le> fl (fl (1 - w) * \<tau>)" using assms by (intro fl_nonneg) simp
  moreover have "0 \<le> fl (w * m)" using assms by (intro fl_nonneg) simp
  ultimately show ?thesis by (intro fl_nonneg) simp
qed


text \<open>
  Claim C7, as amended. The map returned by \<open>DistToPeakMap\<close> has the dimensions
  of the distance map. A cell of the map that lies in the neighbourhood of at
  least one peak holds the minimum Chebyshev distance from the cell to such a
  peak, a value \<open>\<ge> 0\<close>; every other cell of the map holds \<open>-1\<close>. Here a peak is a
  cell whose value exceeds the threshold as the source computes it, in single
  precision. This holds for every map, threshold, radius and weight, so also
  for the weight \<open>0.65f\<close>.
\<close>

theorem DistToPeakMap_min_chebyshev:
  "xsize (DistToPeakMap field \<tau> r w) = xsize field \<and>
   ysize (DistToPeakMap field \<tau> r w) = ysize field \<and>
   (0 \<le> y \<and> y < ysize field \<and> 0 \<le> x \<and> x < xsize field \<longrightarrow>
      (covering_peaks field \<tau> r w (y, x) \<noteq> {} \<longrightarrow>
         Row (DistToPeakMap field \<tau> r w) y x =
           real_of_int (Min (chebyshev (y, x) ` covering_peaks field \<tau> r w (y, x))) \<and>
         0 \<le> Row (DistToPeakMap field \<tau> r w) y x) \<and>
      (covering_peaks field \<tau> r w (y, x) = {} \<longrightarrow>
         Row (DistToPeakMap field \<tau> r w) y x = - 1))"
proof -
  have fin: "finite (covering_peaks field \<tau> r w (y, x))"
    unfolding covering_in_all [symmetric] by (rule finite_covering_in) simp
  have "covering_peaks field \<tau> r w (y, x) \<noteq> {} \<Longrightarrow>
        0 \<le> Min (chebyshev (y, x) ` covering_peaks field \<tau> r w (y, x))"
    using fin by (simp add: chebyshev_nonneg)
  then show ?thesis
    unfolding DistToPeakMap_raster
    using sizes_raster [of field \<tau> r w _ "FilledImage (xsize field) (ysize field) (- 1)"]
      Row_DistToPeakMap [of field \<tau> r w y x]
    by (simp add: FilledImage_def DistToPeakMap_raster)
qed

lemma three_tile_neighbourhood:
  "neighbourhood three_tile_map 1 (0, 0) = {(0, 0), (0, 1)}"
  "neighbourhood three_tile_map 1 (0, 1) = {(0, 0), (0, 1), (0, 2)}"
  "neighbourhood three_tile_map 1 (0, 2) = {(0, 1), (0, 2)}"
  unfolding neighbourhood_def three_tile_map_def by auto

lemma three_tile_peaks:
  "is_peak three_tile_map (9 / 8) 1 (fl (13 / 20)) p \<longleftrightarrow> p = (0, 0)"
proof -
  have dom: "is_peak three_tile_map (9 / 8) 1 (fl (13 / 20)) p \<Longrightarrow>
      p = (0, 0) \<or> p = (0, 1) \<or> p = (0, 2)"
    unfolding is_peak_def three_tile_map_def by (cases p) auto
  have m0: "Max (insert (9 / 8) ((\<lambda>(y, x). Row three_tile_map y x) ` {(0, 0), (0, 1)})) = 32"
    by (simp add: three_tile_map_def)
  have m1: "Max (insert (9 / 8) ((\<lambda>(y, x). Row three_tile_map y x) ` {(0, 0), (0, 1), (0, 2)})) = 32"
    by (simp add: three_tile_map_def)
  have m2: "Max (insert (9 / 8) ((\<lambda>(y, x). Row three_tile_map y x) ` {(0, 1), (0, 2)})) = 9 / 8"
    by (simp add: three_tile_map_def)
  have w: "0 \<le> fl (13 / 20)" "fl (13 / 20) \<le> 1" by (simp_all add: fl_weight)
  have p0: "is_peak three_tile_map (9 / 8) 1 (fl (13 / 20)) (0, 0)"
    unfolding is_peak_def fst_conv snd_conv three_tile_neighbourhood m0 peak_threshold_32
    by (simp add: three_tile_map_def)
  have p1: "\<not> is_peak three_tile_map (9 / 8) 1 (fl (13 / 20)) (0, 1)"
    unfolding is_peak_def fst_conv snd_conv three_tile_neighbourhood m1 peak_threshold_32
    by (simp add: three_tile_map_def)
  have "0 \<le> fl (fl (fl (1 - fl (13 / 20)) * (9 / 8)) + fl (fl (13 / 20) * (9 / 8)))"
    by (rule peak_threshold_nonneg [OF w]) simp_all
  then have p2: "\<not> is_peak three_tile_map (9 / 8) 1 (fl (13 / 20)) (0, 2)"
    unfolding is_peak_def fst_conv snd_conv three_tile_neighbourhood m2
    by (simp add: three_tile_map_def)
  from dom p0 p1 p2 show ?thesis by auto
qed

lemma three_tile_covering:
  "covering_peaks three_tile_map (9 / 8) 1 (fl (13 / 20)) (0, 0) = {(0, 0)}"
  "covering_peaks three_tile_map (9 / 8) 1 (fl (13 / 20)) (0, 1) = {(0, 0)}"
  "covering_peaks three_tile_map (9 / 8) 1 (fl (13 / 20)) (0, 2) = {}"
  unfolding covering_peaks_def three_tile_peaks
  by (auto simp: three_tile_neighbourhood)

lemma three_tile_sizes: "xsize three_tile_map = 3" "ysize three_tile_map = 1"
  by (simp_all add: three_tile_map_def)

text \<open>
  The theorem on the map of three tiles, threshold \<open>9 / 8\<close>, radius 1 and weight
  \<open>0.65f\<close>: the peak holds 0, its neighbour 1, and the third tile, which no
  peak covers, \<open>-1\<close>.
\<close>

theorem DistToPeakMap_min_chebyshev_witness:
  "xsize (DistToPeakMap three_tile_map (9 / 8) 1 (fl (13 / 20))) = 3 \<and>
   Row (DistToPeakMap three_tile_map (9 / 8) 1 (fl (13 / 20))) 0 0 = 0 \<and>
   Row (DistToPeakMap three_tile_map (9 / 8) 1 (fl (13 / 20))) 0 1 = 1 \<and>
   covering_peaks three_tile_map (9 / 8) 1 (fl (13 / 20)) (0, 2) = {} \<and>
   Row (DistToPeakMap three_tile_map (9 / 8) 1 (fl (13 / 20))) 0 2 = - 1"
  using DistToPeakMap_min_chebyshev [of three_tile_map "9 / 8" 1 "fl (13 / 20)" 0 0]
    DistToPeakMap_min_chebyshev [of three_tile_map "9 / 8" 1 "fl (13 / 20)" 0 1]
    DistToPeakMap_min_chebyshev [of three_tile_map "9 / 8" 1 "fl (13 / 20)" 0 2]
  by (simp add: three_tile_covering chebyshev_def three_tile_sizes)

lemma fl_low_term_1: "fl (2936013 / 8388608) = 2936013 / 8388608"
  by (simp add: fl_eval [where e = "- 2"] rne_def)

lemma fl_high_term_tie: "fl (5452595 / 8388608 * (1 + 1 / 2 ^ 22)) = 10905193 / 16777216"
  by (simp add: fl_eval [where e = "- 1"] rne_def)

lemma fl_threshold_tie: "fl (2936013 / 8388608 + 10905193 / 16777216) = 1 + 1 / 2 ^ 22"
  by (simp add: fl_eval [where e = 0] rne_def)

lemma tie_neighbourhood: "neighbourhood tie_map 1 (0, 0) = {(0, 0)}"
  unfolding neighbourhood_def tie_map_def by auto

lemma tie_no_peak: "\<not> is_peak tie_map 1 1 (fl (13 / 20)) p"
proof
  assume a: "is_peak tie_map 1 1 (fl (13 / 20)) p"
  then have p: "p = (0, 0)"
    unfolding is_peak_def tie_map_def by (cases p) auto
  have m: "Max (insert 1 ((\<lambda>(y, x). Row tie_map y x) ` {(0, 0)})) = 1 + 1 / 2 ^ 22"
    by (simp add: tie_map_def)
  have t: "fl (fl (fl (1 - fl (13 / 20)) * 1) + fl (fl (13 / 20) * (1 + 1 / 2 ^ 22))) =
           1 + 1 / 2 ^ 22"
    by (simp only: fl_weight fl_one_minus_weight mult_1_right fl_low_term_1 fl_high_term_tie
        fl_threshold_tie)
  from a show False
    unfolding p is_peak_def fst_conv snd_conv tie_neighbourhood m t
    by (simp add: tie_map_def)
qed

text \<open>
  Claim C7 as stated fails for the map of one cell with the value \<open>1 + 2^-22\<close>,
  threshold 1 and radius 1. The value exceeds \<open>0.35 * 1 + 0.65 * (1 + 2^-22)\<close>, so
  the cell is a peak in the words of the claim, at Chebyshev distance 0 from
  itself, and should hold 0. In single precision the threshold is
  \<open>0.35000002384185791015625 + 0.650000631809234619140625\<close>, which lies halfway
  between two values of \<open>float\<close> and is rounded to \<open>1 + 2^-22\<close>: the value does not
  exceed it, no peak is found, and the cell holds \<open>-1\<close>.
\<close>

theorem DistToPeakMap_claim_counterexample:
  "claimed_peak tie_map 1 1 (0, 0) \<and> (0, 0) \<in> neighbourhood tie_map 1 (0, 0) \<and>
   chebyshev (0, 0) (0, 0) = 0 \<and>
   Row (DistToPeakMap tie_map 1 1 (fl 0.65)) 0 0 = - 1"
proof -
  have c: "claimed_peak tie_map 1 1 (0, 0)"
    unfolding claimed_peak_def fst_conv snd_conv tie_neighbourhood
    by (simp add: tie_map_def)
  have "covering_peaks tie_map 1 1 (fl (13 / 20)) (0, 0) = {}"
    unfolding covering_peaks_def using tie_no_peak by simp
  then have "Row (DistToPeakMap tie_map 1 1 (fl (13 / 20))) 0 0 = - 1"
    by (simp add: Row_DistToPeakMap)
  then show ?thesis
    using c by (simp add: tie_neighbourhood chebyshev_def)
qed

section \<open>Properties of AdjustQuantVal\<close>

lemma fl_999: "fl (999 / 1000) = 16760439 / 16777216"
  by (simp add: fl_eval [where e = "- 1"] rne_def)

lemma fl_threshold_4: "fl (fl (999 / 1000) * 4) = 16760439 / 4194304"
  by (simp add: fl_999 fl_eval [where e = 1] rne_def)

lemma fl_small: "fl (1 / 2 ^ 128) = 1 / 2 ^ 128"
  by (simp add: fl_eval_subnormal rne_def)

lemma fl_1: "fl 1 = 1"
  by (simp add: fl_eval [where e = 0] rne_def)

lemma fl_2: "fl 2 = 2"
  by (simp add: fl_eval [where e = 1] rne_def)

lemma fl_4: "fl 4 = 4"
  by (simp add: fl_eval [where e = 2] rne_def)

lemma fl_half: "fl (1 / 2) = 1 / 2"
  by (simp add: fl_eval [where e = "- 1"] rne_def)

lemma fl_quarter: "fl (1 / 4) = 1 / 4"
  by (simp add: fl_eval [where e = "- 2"] rne_def)

lemma AdjustQuantVal_capped:
  assumes "0 < qmax" "qmax < 2 ^ 128" "q < fl (fl 0.999 * qmax)"
  shows "0 \<le> snd (AdjustQuantVal q d factor qmax)"
    and "snd (AdjustQuantVal q d factor qmax) \<le> fl (1 / fl (1 / qmax))"
proof -
  define a where "a = fl (fl (1 / q) - fl (factor / fl (d + 1)))"
  define m where "m = max (fl (1 / qmax)) a"
  have r: "snd (AdjustQuantVal q d factor qmax) = fl (1 / m)"
    using assms(3) by (simp add: AdjustQuantVal_def Let_def m_def a_def)
  have "1 / 2 ^ 128 \<le> 1 / qmax"
    using assms(1,2) by (simp add: field_simps)
  from fl_mono [OF this] have lo: "1 / 2 ^ 128 \<le> fl (1 / qmax)"
    by (simp only: fl_small)
  then have pos: "0 < fl (1 / qmax)" by (rule less_le_trans [rotated]) simp
  have m: "fl (1 / qmax) \<le> m" by (simp add: m_def)
  with pos have mpos: "0 < m" by linarith
  have "0 \<le> fl (1 / m)" using mpos by (intro fl_nonneg) simp
  then show "0 \<le> snd (AdjustQuantVal q d factor qmax)" by (simp only: r)
  have "1 / m \<le> 1 / fl (1 / qmax)"
    using m pos by (intro divide_left_mono) (auto simp: mpos)
  from fl_mono [OF this] show "snd (AdjustQuantVal q d factor qmax) \<le> fl (1 / fl (1 / qmax))"
    by (simp only: r)
qed


lemma cap_at_quant_max:
  assumes "qmax \<in> {4, 9 / 2, 5, 11 / 2, 6, 13 / 2, 7, 15 / 2, 8}"
  shows "fl (1 / fl (1 / qmax)) \<le> qmax"
proof -
  have a: "fl (1 / 4) = 1 / 4" "fl (2 / 9) = 14913081 / 67108864"
    "fl (1 / 5) = 13421773 / 67108864" "fl (2 / 11) = 3050403 / 16777216"
    "fl (1 / 6) = 11184811 / 67108864" "fl (2 / 13) = 10324441 / 67108864"
    "fl (1 / 7) = 9586981 / 67108864" "fl (2 / 15) = 8947849 / 67108864"
    "fl (1 / 8) = 1 / 8"
    by (simp_all add: fl_eval [where e = "- 2"] fl_eval [where e = "- 3"] rne_def)
  have b: "fl (1 / fl (1 / 4)) = 4"
    "fl (1 / fl (1 / (9 / 2))) = 9 / 2"
    "fl (1 / fl (1 / 5)) = 5"
    "fl (1 / fl (1 / (11 / 2))) = 11 / 2"
    "fl (1 / fl (1 / 6)) = 6"
    "fl (1 / fl (1 / (13 / 2))) = 13631487 / 2097152"
    "fl (1 / fl (1 / 7)) = 14680063 / 2097152"
    "fl (1 / fl (1 / (15 / 2))) = 15728639 / 2097152"
    "fl (1 / fl (1 / 8)) = 8"
    by (simp_all add: a fl_eval [where e = 2] fl_eval [where e = 3] rne_def)
  from assms consider "qmax = 4" | "qmax = 9 / 2" | "qmax = 5" | "qmax = 11 / 2" | "qmax = 6"
    | "qmax = 13 / 2" | "qmax = 7" | "qmax = 15 / 2" | "qmax = 8" by auto
  then show ?thesis
  proof cases
    case 1
    show ?thesis unfolding 1 b(1) by simp
  next
    case 2
    show ?thesis unfolding 2 b(2) by simp
  next
    case 3
    show ?thesis unfolding 3 b(3) by simp
  next
    case 4
    show ?thesis unfolding 4 b(4) by simp
  next
    case 5
    show ?thesis unfolding 5 b(5) by simp
  next
    case 6
    show ?thesis unfolding 6 b(6) by simp
  next
    case 7
    show ?thesis unfolding 7 b(7) by simp
  next
    case 8
    show ?thesis unfolding 8 b(8) by simp
  next
    case 9
    show ?thesis unfolding 9 b(9) by simp
  qed
qed

text \<open>
  Claim C2, as amended. For every \<open>q\<close>, \<open>d\<close> and \<open>factor\<close>, and every \<open>qmax > 0\<close> in
  the range of \<open>float\<close>, in single-precision arithmetic: when
  \<open>q \<ge> 0.999f * qmax\<close> the call returns false and \<open>*q\<close> keeps its value; whenever
  the call returns false, \<open>*q\<close> is not modified; when \<open>q < 0.999f * qmax\<close> it sets
  \<open>q := 1.0f / max (1.0f / qmax) (1.0f / q - factor / (d + 1.0f))\<close>, each
  operation rounded, and the new value satisfies \<open>0 \<le> q \<le> 1.0f / (1.0f / qmax)\<close>,
  which is at most \<open>qmax\<close> for the values 4, 4.5, ..., 8 that
  \<open>FindBestQuantization\<close> passes: the value is capped from above, at \<open>qmax\<close> up
  to rounding. What the call returns when it stores the value that \<open>*q\<close> had
  is not part of the statement.
\<close>

theorem AdjustQuantVal_contract:
  assumes "0 < qmax" "qmax < 2 ^ 128"
  shows "(q \<ge> fl (fl 0.999 * qmax) \<longrightarrow> AdjustQuantVal q d factor qmax = (False, q)) \<and>
         (fst (AdjustQuantVal q d factor qmax) = False \<longrightarrow>
            snd (AdjustQuantVal q d factor qmax) = q) \<and>
         (q < fl (fl 0.999 * qmax) \<longrightarrow>
            snd (AdjustQuantVal q d factor qmax) =
              fl (1 / max (fl (1 / qmax)) (fl (fl (1 / q) - fl (factor / fl (d + 1))))) \<and>
            0 \<le> snd (AdjustQuantVal q d factor qmax) \<and>
            snd (AdjustQuantVal q d factor qmax) \<le> fl (1 / fl (1 / qmax)) \<and>
            (qmax \<in> {4, 9 / 2, 5, 11 / 2, 6, 13 / 2, 7, 15 / 2, 8} \<longrightarrow>
               snd (AdjustQuantVal q d factor qmax) \<le> qmax))"
proof (intro conjI impI)
  show "fl (fl 0.999 * qmax) \<le> q \<Longrightarrow> AdjustQuantVal q d factor qmax = (False, q)"
    by (simp add: AdjustQuantVal_def)
  show "fst (AdjustQuantVal q d factor qmax) = False \<Longrightarrow>
          snd (AdjustQuantVal q d factor qmax) = q"
    by (simp add: AdjustQuantVal_def Let_def split: if_splits)
  assume lt: "q < fl (fl 0.999 * qmax)"
  then show "snd (AdjustQuantVal q d factor qmax) =
          fl (1 / max (fl (1 / qmax)) (fl (fl (1 / q) - fl (factor / fl (d + 1)))))"
    by (simp add: AdjustQuantVal_def Let_def)
  show "0 \<le> snd (AdjustQuantVal q d factor qmax)"
    by (rule AdjustQuantVal_capped(1) [OF assms lt])
  show c: "snd (AdjustQuantVal q d factor qmax) \<le> fl (1 / fl (1 / qmax))"
    by (rule AdjustQuantVal_capped(2) [OF assms lt])
  assume "qmax \<in> {4, 9 / 2, 5, 11 / 2, 6, 13 / 2, 7, 15 / 2, 8}"
  from cap_at_quant_max [OF this] c
  show "snd (AdjustQuantVal q d factor qmax) \<le> qmax" by linarith
qed

text \<open>
  Four calls. In the last one the term \<open>factor / (d + 1.0f) = 2^-30\<close> is lost in
  the rounding of \<open>2 - 2^-30\<close>, and the value stored is the one \<open>*q\<close> had.
\<close>

lemma AdjustQuantVal_examples:
  "AdjustQuantVal 1 0 (1 / 2) 4 = (True, 2)"
  "AdjustQuantVal 4 0 (1 / 2) 4 = (False, 4)"
  "AdjustQuantVal 1 0 0 4 = (True, 1)"
  "AdjustQuantVal (1 / 2) 0 (1 / 2 ^ 30) 4 = (True, 1 / 2)"
proof -
  have t: "fl (fl 0.999 * 4) = 16760439 / 4194304"
    using fl_threshold_4 by simp
  have z: "fl (1 / 2 ^ 30) = 1 / 2 ^ 30"
    by (simp add: fl_eval [where e = "- 30"] rne_def)
  have y: "fl (2147483647 / 1073741824) = 2"
    by (simp add: fl_eval [where e = 0] rne_def)
  show "AdjustQuantVal 1 0 (1 / 2) 4 = (True, 2)"
    unfolding AdjustQuantVal_def t by (simp add: fl_0 fl_1 fl_2 fl_half fl_quarter)
  show "AdjustQuantVal 4 0 (1 / 2) 4 = (False, 4)"
    unfolding AdjustQuantVal_def t by simp
  show "AdjustQuantVal 1 0 0 4 = (True, 1)"
    unfolding AdjustQuantVal_def t by (simp add: fl_0 fl_1 fl_quarter)
  show "AdjustQuantVal (1 / 2) 0 (1 / 2 ^ 30) 4 = (True, 1 / 2)"
    unfolding AdjustQuantVal_def t Let_def
    by (simp only: add_0 fl_1 div_by_1 z) (simp add: fl_2 y fl_quarter fl_half)
qed

text \<open>
  The theorem at \<open>q = 1\<close>, where the value 2 is stored, and at \<open>q = 4\<close>, where the
  call returns false; \<open>d = 0\<close>, \<open>factor = 1 / 2\<close> and \<open>qmax = 4\<close> in both.
\<close>

theorem AdjustQuantVal_contract_witness:
  "(0::real) < 4 \<and> (4::real) < 2 ^ 128 \<and> (1::real) < fl (fl 0.999 * 4) \<and>
   AdjustQuantVal 1 0 (1 / 2) 4 = (True, 2) \<and>
   (2::real) = fl (1 / max (fl (1 / 4)) (fl (fl (1 / 1) - fl ((1 / 2) / fl (0 + 1))))) \<and>
   (0::real) \<le> 2 \<and> (2::real) \<le> fl (1 / fl (1 / 4)) \<and> (2::real) \<le> 4 \<and>
   (4::real) \<ge> fl (fl 0.999 * 4) \<and>
   AdjustQuantVal 4 0 (1 / 2) 4 = (False, 4)"
proof -
  note T1 = AdjustQuantVal_contract [of 4 1 0 "1 / 2"]
  note T4 = AdjustQuantVal_contract [of 4 4 0 "1 / 2"]
  have r: "(0::real) < 4" "(4::real) < 2 ^ 128" by simp_all
  have lt: "(1::real) < fl (fl 0.999 * 4)" and ge: "(4::real) \<ge> fl (fl 0.999 * 4)"
    using fl_threshold_4 by simp_all
  have e: "AdjustQuantVal 1 0 (1 / 2) 4 = (True, 2)" by (rule AdjustQuantVal_examples(1))
  from T1 [OF r] lt have
    "snd (AdjustQuantVal 1 0 (1 / 2) 4) =
       fl (1 / max (fl (1 / 4)) (fl (fl (1 / 1) - fl ((1 / 2) / fl (0 + 1)))))"
    "0 \<le> snd (AdjustQuantVal 1 0 (1 / 2) 4)"
    "snd (AdjustQuantVal 1 0 (1 / 2) 4) \<le> fl (1 / fl (1 / 4))"
    "snd (AdjustQuantVal 1 0 (1 / 2) 4) \<le> 4"
    by simp_all
  then have a: "(2::real) = fl (1 / max (fl (1 / 4)) (fl (fl (1 / 1) - fl ((1 / 2) / fl (0 + 1)))))"
    "(0::real) \<le> 2" "(2::real) \<le> fl (1 / fl (1 / 4))" "(2::real) \<le> 4"
    unfolding e snd_conv by simp_all
  from T4 [OF r] ge have b: "AdjustQuantVal 4 0 (1 / 2) 4 = (False, 4)" by blast
  show ?thesis using r lt ge e a b by blast
qed

text \<open>
  Claim C2 as stated fails at \<open>q = 1\<close>, \<open>d = 0\<close>, \<open>factor = 0\<close>, \<open>qmax = 4\<close>, where every
  operation is exact: the call returns true although \<open>*q\<close> keeps its value, and
  afterwards \<open>1 / q = 1\<close> is greater than \<open>1 / qmax = 1 / 4\<close>.
\<close>

theorem AdjustQuantVal_claim_counterexample:
  "fst (AdjustQuantVal 1 0 0 4) \<and> snd (AdjustQuantVal 1 0 0 4) = 1 \<and>
   \<not> (1 / snd (AdjustQuantVal 1 0 0 4) \<le> 1 / 4)"
  by (simp add: AdjustQuantVal_examples(3))

section \<open>Properties of FindBestQuantization\<close>

declare radius_loop.simps [simp del] adjust_loop.simps [simp del]

text \<open>Values of the rounding that the runs below meet.\<close>

lemma fl_evals:
  "fl 0 = 0" "fl 1 = 1" "fl 2 = 2" "fl 4 = 4" "fl (1 / 2) = 1 / 2" "fl (1 / 4) = 1 / 4"
  "fl (- x) = - fl x"
  "fl (13 / 20) = 5452595 / 8388608"
  "fl (2936013 / 8388608) = 2936013 / 8388608"
  "fl (26424117 / 67108864) = 6606029 / 16777216"
  "fl (5452595 / 262144) = 5452595 / 262144"
  "fl (355572109 / 16777216) = 2777907 / 131072"
  "fl (999 / 1000) = 16760439 / 16777216"
  "fl (16760439 / 4194304) = 16760439 / 4194304"
  "fl (1 / 10) = 13421773 / 134217728"
  "fl (13421773 / 4194304) = 13421773 / 4194304"
  "fl (5033165 / 4194304) = 5033165 / 4194304"
  "fl (4 / 5) = 13421773 / 16777216"
  "fl (9 / 10) = 7549747 / 8388608"
  "fl (9 / 16) = 9 / 16"
  "fl (120795957 / 268435456) = 15099495 / 33554432"
  "fl (113997367077765 / 281474976710656) = 13589545 / 33554432"
  by (simp_all add: fl_0 fl_minus rne_def
      fl_eval [where e = 0] fl_eval [where e = 1] fl_eval [where e = 2] fl_eval [where e = 4]
      fl_eval [where e = "- 1"] fl_eval [where e = "- 2"] fl_eval [where e = "- 4"])

lemma compare_step_frame:
  "compare_step env dc n s = Break s' \<or> compare_step env dc n s = Continue s' \<Longrightarrow>
   scale_log s' = scale_log s \<and> outer_iter s' = outer_iter s"
  unfolding compare_step_def Let_def
  by (auto split: prod.splits if_splits)

lemma pass_inv:
  assumes "fbq_inv (Continue s)"
  shows "fbq_inv (FindBestQuantization_pass env \<tau> n s)"
proof (cases "compare_step env (fl (initial_quant_val_dc / \<tau>)) n s")
  case (Break s1)
  then have "scale_log s1 = scale_log s"
    using compare_step_frame [of env "fl (initial_quant_val_dc / \<tau>)" n s s1] by blast
  then show ?thesis
    using assms Break
    by (simp add: FindBestQuantization_pass_def fbq_inv_def state_of_def scale_log_ok_def)
next
  case (Continue s1)
  then have fr: "scale_log s1 = scale_log s" "outer_iter s1 = outer_iter s"
    using compare_step_frame [of env "fl (initial_quant_val_dc / \<tau>)" n s s1] by blast+
  obtain qf changed q_max where al:
    "adjust_loop env (fbq_img s1) (tile_distmap s1) (distance s1) \<tau> (outer_iter s1)
       (quant_field s1, False, quant_max s1) = (qf, changed, q_max)"
    by (metis prod_cases3)
  define s2 where "s2 = s1\<lparr>quant_field := qf, quant_max := q_max\<rparr>"
  have pass_eq: "FindBestQuantization_pass env \<tau> n s =
      (if \<not> changed then
         if outer_iter s2 + 1 = kMaxOuterIters then Break (s2\<lparr>outer_iter := outer_iter s2 + 1\<rparr>)
         else Continue (s2\<lparr>outer_iter := outer_iter s2 + 1,
                 quant_field := scale_quant_field env (fbq_img s2) (outer_iter s2 + 1) qf,
                 scale_log := scale_log s2 @ [outer_iter s2 + 1]\<rparr>)
       else Continue s2)"
    by (simp add: FindBestQuantization_pass_def Continue al Let_def s2_def)
  have s2: "scale_log s2 = scale_log s" "outer_iter s2 = outer_iter s"
    using fr by (simp_all add: s2_def)
  from assms have a: "\<forall>i\<in>set (scale_log s). 1 \<le> i \<and> i < kMaxOuterIters"
    "outer_iter s < kMaxOuterIters"
    by (simp_all add: fbq_inv_def state_of_def scale_log_ok_def)
  show ?thesis
    unfolding pass_eq using a s2
    by (auto simp: fbq_inv_def state_of_def scale_log_ok_def)
qed

lemma passes_inv:
  "fbq_inv (Continue s) \<Longrightarrow> fbq_inv (FindBestQuantization_passes k env \<tau> n s)"
proof (induction k arbitrary: s)
  case 0
  then show ?case by simp
next
  case (Suc k)
  show ?case
  proof (cases "FindBestQuantization_pass env \<tau> n s")
    case (Break s')
    then show ?thesis using pass_inv [OF Suc.prems, of env \<tau> n]
      by (simp add: fbq_inv_def state_of_def)
  next
    case (Continue s')
    then show ?thesis using pass_inv [OF Suc.prems, of env \<tau> n] Suc.IH [of s']
      by simp
  qed
qed

lemma init_inv: "fbq_inv (Continue (FindBestQuantization_init env \<tau> img))"
  by (simp add: fbq_inv_def state_of_def scale_log_ok_def FindBestQuantization_init_def
      kMaxOuterIters_def)

lemma loop_passes:
  assumes "FindBestQuantization_loop env \<tau> n s = Some r"
  shows "\<exists>k. FindBestQuantization_passes k env \<tau> n s = Break r"
proof (rule FindBestQuantization_loop.raw_induct
    [where P = "\<lambda>env \<tau> n s r. \<exists>k. FindBestQuantization_passes k env \<tau> n s = Break r",
     OF _ assms])
  fix f :: "'a CompressedImageT \<Rightarrow> real \<Rightarrow> int \<Rightarrow> 'a fbq_state \<Rightarrow> 'a fbq_state option"
    and env \<tau> n s r
  assume IH: "\<And>e t m x y. f e t m x = Some y \<Longrightarrow>
                \<exists>k. FindBestQuantization_passes k e t m x = Break y"
    and eq: "(case FindBestQuantization_pass env \<tau> n s of
                Break s' \<Rightarrow> Some s' | Continue s' \<Rightarrow> f env \<tau> n s') = Some r"
  show "\<exists>k. FindBestQuantization_passes k env \<tau> n s = Break r"
  proof (cases "FindBestQuantization_pass env \<tau> n s")
    case (Break s')
    with eq have "FindBestQuantization_passes (Suc 0) env \<tau> n s = Break r" by simp
    then show ?thesis by blast
  next
    case (Continue s')
    with eq have "f env \<tau> n s' = Some r" by simp
    then obtain k where "FindBestQuantization_passes k env \<tau> n s' = Break r"
      using IH by blast
    then have "FindBestQuantization_passes (Suc k) env \<tau> n s = Break r"
      using Continue by simp
    then show ?thesis by blast
  qed
qed

lemma passes_loop:
  "FindBestQuantization_passes k env \<tau> n s = Break r \<Longrightarrow>
   FindBestQuantization_loop env \<tau> n s = Some r"
proof (induction k arbitrary: s)
  case 0
  then show ?case by simp
next
  case (Suc k)
  then show ?case
    by (cases "FindBestQuantization_pass env \<tau> n s")
       (simp_all add: FindBestQuantization_loop.simps [of env \<tau> n s])
qed


lemma DistToPeakMap_two_tiles:
  assumes "xsize t = 2" "ysize t = 1" "Row t 0 0 = 32" "Row t 0 1 = 0"
  shows "Row (DistToPeakMap t (9 / 8) 1 (fl (13 / 20))) 0 0 = 0"
    and "Row (DistToPeakMap t (9 / 8) 1 (fl (13 / 20))) 0 1 = 1"
  using assms
  by (simp_all add: DistToPeakMap_def peak_step_def local_max_in_def write_peak_dists_def
      FilledImage_def set_pixel_def Let_def upto.simps fl_evals)

lemma stalled_pass:
  assumes "stalled s"
  shows "\<exists>s'. FindBestQuantization_pass stall_codec (9 / 8) n s = Continue s' \<and> stalled s'"
proof -
  from assms have a: "fbq_img s = (fl (17 / 18), [4, 1 / 2])"
     "Row (quant_field s) 0 0 = 4" "Row (quant_field s) 0 1 = 1 / 2"
     "xsize (tile_distmap s) = 2" "ysize (tile_distmap s) = 1"
     "Row (tile_distmap s) 0 0 = 32" "Row (tile_distmap s) 0 1 = 0"
     "distance s = 32" "outer_iter s = 0" "quant_max s = 4"
    unfolding stalled_def by blast+
  have c: "compare_step stall_codec (fl (initial_quant_val_dc / (9 / 8))) n s = Continue s"
    by (simp add: a compare_step_def stall_codec_def initial_quant_val_dc_def)
  note d = DistToPeakMap_two_tiles [OF a(4) a(5) a(6) a(7), unfolded fl_weight]
  have ab: "\<And>img. adjust_blocks stall_codec img (tile_distmap s)
              (DistToPeakMap (tile_distmap s) (9 / 8) 1 (fl (13 / 20))) 0 4 (quant_field s, False) =
            (set_pixel (set_pixel (quant_field s) 0 0 4) 0 1 (1 / 2), True)"
    by (simp add: a d adjust_blocks_def adjust_block_def stall_codec_def upto.simps
        AdjustQuantVal_def kAdjSpeed_def Let_def Row_set_pixel fl_evals)
  have al: "\<And>img. adjust_loop stall_codec img (tile_distmap s) 32 (9 / 8) 0
              (quant_field s, False, 4) =
            (set_pixel (set_pixel (quant_field s) 0 0 4) 0 1 (1 / 2), True, 4)"
    by (simp add: adjust_loop.simps radius_loop.simps ab)
  show ?thesis
    unfolding FindBestQuantization_pass_def c
    by (simp add: a al stalled_def Row_set_pixel)
qed


lemma TileDistMap_stall:
  "xsize (TileDistMap stall_distmap kBlockEdge) = 2"
  "ysize (TileDistMap stall_distmap kBlockEdge) = 1"
  "Row (TileDistMap stall_distmap kBlockEdge) 0 0 = 32"
  "Row (TileDistMap stall_distmap kBlockEdge) 0 1 = 0"
  by (simp_all add: TileDistMap_def stall_distmap_def kBlockEdge_def Let_def upto.simps
      FilledImage_def set_pixel_def)

lemma heating_pass:
  assumes "heating q s" "q = 1 / 2 \<or> q = 4" "butteraugli_iter s < n"
  shows "\<exists>s'. FindBestQuantization_pass stall_codec (9 / 8) n s = Continue s' \<and>
           fbq_img s' = (fl (17 / 18), [q, 1 / 2]) \<and>
           Row (quant_field s') 0 0 = 4 \<and> Row (quant_field s') 0 1 = 1 / 2 \<and>
           xsize (tile_distmap s') = 2 \<and> ysize (tile_distmap s') = 1 \<and>
           Row (tile_distmap s') 0 0 = 32 \<and> Row (tile_distmap s') 0 1 = 0 \<and>
           distance s' = 32 \<and> outer_iter s' = 0 \<and> quant_max s' = 4"
proof -
  from assms(1) have a: "fbq_img s \<noteq> (fl (17 / 18), [q, 1 / 2])"
     "Row (quant_field s) 0 0 = q" "Row (quant_field s) 0 1 = 1 / 2"
     "outer_iter s = 0" "quant_max s = 4"
    unfolding heating_def by blast+
  define s1 where "s1 = s\<lparr>fbq_img := (fl (17 / 18), [q, 1 / 2]),
       tile_distmap := TileDistMap stall_distmap kBlockEdge,
       distance := 32, butteraugli_iter := butteraugli_iter s + 1\<rparr>"
  have c: "compare_step stall_codec (fl (initial_quant_val_dc / (9 / 8))) n s = Continue s1"
    using assms(3) a(1)
    by (simp add: a(2,3) compare_step_def stall_codec_def initial_quant_val_dc_def s1_def)
  note d = DistToPeakMap_two_tiles [OF TileDistMap_stall, unfolded fl_weight]
  have ab: "adjust_blocks stall_codec img (TileDistMap stall_distmap kBlockEdge)
              (DistToPeakMap (TileDistMap stall_distmap kBlockEdge) (9 / 8) 1 (fl (13 / 20))) 0 4
              (quant_field s, False) =
            (set_pixel (set_pixel (quant_field s) 0 0 4) 0 1 (1 / 2), True)" for img
  proof (cases "q = 4")
    case True
    show ?thesis
      by (simp add: True a(2,3) d TileDistMap_stall adjust_blocks_def adjust_block_def
          stall_codec_def upto.simps AdjustQuantVal_def kAdjSpeed_def Let_def Row_set_pixel fl_evals)
  next
    case False
    with assms(2) have q: "q = 1 / 2" by simp
    show ?thesis
      by (simp add: q a(2,3) d TileDistMap_stall adjust_blocks_def adjust_block_def
          stall_codec_def upto.simps AdjustQuantVal_def kAdjSpeed_def Let_def Row_set_pixel fl_evals)
  qed
  have al: "\<And>img. adjust_loop stall_codec img (TileDistMap stall_distmap kBlockEdge) 32 (9 / 8) 0
              (quant_field s, False, 4) =
            (set_pixel (set_pixel (quant_field s) 0 0 4) 0 1 (1 / 2), True, 4)"
    by (simp add: adjust_loop.simps radius_loop.simps ab)
  show ?thesis
    unfolding FindBestQuantization_pass_def c
    by (simp add: a s1_def al Row_set_pixel TileDistMap_stall)
qed

lemma continue_loop:
  "FindBestQuantization_pass env \<tau> n s = Continue s' \<Longrightarrow>
   FindBestQuantization_loop env \<tau> n s = FindBestQuantization_loop env \<tau> n s'"
  by (simp add: FindBestQuantization_loop.simps [of env \<tau> n s])

lemma stalled_passes:
  "stalled s \<Longrightarrow>
   \<exists>s'. FindBestQuantization_passes k stall_codec (9 / 8) n s = Continue s' \<and> stalled s'"
proof (induction k arbitrary: s)
  case 0
  then show ?case by simp
next
  case (Suc k)
  from stalled_pass [OF Suc.prems, of n] obtain s1 where
    "FindBestQuantization_pass stall_codec (9 / 8) n s = Continue s1" "stalled s1"
    by blast
  with Suc.IH [of s1] show ?case by simp
qed

lemma stalled_loop:
  assumes "stalled s"
  shows "FindBestQuantization_loop stall_codec (9 / 8) n s = None"
proof (rule ccontr)
  assume "FindBestQuantization_loop stall_codec (9 / 8) n s \<noteq> None"
  then obtain r where "FindBestQuantization_loop stall_codec (9 / 8) n s = Some r"
    by blast
  then obtain k where "FindBestQuantization_passes k stall_codec (9 / 8) n s = Break r"
    using loop_passes by blast
  with stalled_passes [OF assms, of k n] show False by auto
qed

text \<open>
  Claim C1 fails on the code. For the image of two blocks above, target
  \<open>9 / 8\<close> and budget 100, \<open>FindBestQuantization\<close> never leaves its outer loop.
  Two passes run the comparator and raise the first block to \<open>quant_max\<close>. From
  then on \<open>AdjustQuantVal\<close> returns true for the second block, whose factor is
  0, without changing its value, so \<open>changed\<close> is set; \<open>SetQuantField\<close> reports
  no change, so the comparator is skipped and \<open>butteraugli_iter\<close> stays at 2;
  \<open>outer_iter\<close> stays at 0; and the next pass starts from the same state.
\<close>

theorem FindBestQuantization_stalls:
  "FindBestQuantization stall_codec (9 / 8) 100 (1, [1, 1]) = None"
proof -
  define s0 where "s0 = FindBestQuantization_init stall_codec (9 / 8) (1, [1, 1])"
  have h0: "heating (1 / 2) s0" and i0: "butteraugli_iter s0 = 0"
    by (simp_all add: heating_def s0_def FindBestQuantization_init_def stall_codec_def
        FilledImage_def initial_quant_val_ac_def fl_evals)
  from heating_pass [OF h0, of 100] i0 obtain s1 where
    p1: "FindBestQuantization_pass stall_codec (9 / 8) 100 s0 = Continue s1"
    and s1: "fbq_img s1 = (fl (17 / 18), [1 / 2, 1 / 2])"
      "Row (quant_field s1) 0 0 = 4" "Row (quant_field s1) 0 1 = 1 / 2"
      "outer_iter s1 = 0" "quant_max s1 = 4"
    by auto
  have i1: "butteraugli_iter s1 \<le> 1"
    using p1 i0
    by (auto simp: FindBestQuantization_pass_def compare_step_def Let_def
        split: prod.splits if_splits loop_step.splits)
  have h1: "heating 4 s1"
    using s1 by (simp add: heating_def)
  from heating_pass [OF h1, of 100] i1 obtain s2 where
    p2: "FindBestQuantization_pass stall_codec (9 / 8) 100 s1 = Continue s2"
    and s2: "stalled s2"
    unfolding stalled_def by auto
  have "FindBestQuantization stall_codec (9 / 8) 100 (1, [1, 1]) =
        FindBestQuantization_loop stall_codec (9 / 8) 100 s2"
    unfolding FindBestQuantization_def s0_def [symmetric]
    using continue_loop [OF p1] continue_loop [OF p2] by simp
  then show ?thesis using stalled_loop [OF s2] by simp
qed


lemma kQuantScale_applied:
  "1 \<le> i \<Longrightarrow> i < kMaxOuterIters \<Longrightarrow>
   kQuantScale ! i = 13421773 / 16777216 \<or> kQuantScale ! i = 7549747 / 8388608"
  by (cases "i = 1")
     (auto simp: kQuantScale_def kMaxOuterIters_def nth_Cons' numeral_2_eq_2 less_Suc_eq
        numeral_3_eq_3 fl_evals)

text \<open>
  Claim C9. In every execution of the rate-control loop, after any number of
  passes and in the state the loop returns, every index with which
  \<open>kQuantScale[outer_iter]\<close> was applied to the quant field is at least 1 (it is
  1 or 2), and the scale applied is not zero: \<open>kQuantScale[0]\<close> is never used.
\<close>

theorem kQuantScale_index_positive:
  "(\<forall>i\<in>set (scale_log (state_of (FindBestQuantization_passes k env \<tau> n
                 (FindBestQuantization_init env \<tau> img)))).
      1 \<le> i \<and> i < kMaxOuterIters \<and> kQuantScale ! i \<noteq> 0) \<and>
   (\<forall>r. FindBestQuantization env \<tau> n img = Some r \<longrightarrow>
      (\<forall>i\<in>set (scale_log r). 1 \<le> i \<and> i < kMaxOuterIters \<and> kQuantScale ! i \<noteq> 0))"
proof -
  have ok: "scale_log_ok s \<Longrightarrow>
        \<forall>i\<in>set (scale_log s). 1 \<le> i \<and> i < kMaxOuterIters \<and> kQuantScale ! i \<noteq> 0" for s :: "'a fbq_state"
    unfolding scale_log_ok_def using kQuantScale_applied by fastforce
  have pre: "scale_log_ok (state_of (FindBestQuantization_passes k env \<tau> n
                 (FindBestQuantization_init env \<tau> img)))" for k
    using passes_inv [where k = k and env = env and \<tau> = \<tau> and n = n,
        OF init_inv [of env \<tau> img]]
    by (simp add: fbq_inv_def)
  have fin: "scale_log_ok r" if "FindBestQuantization env \<tau> n img = Some r" for r
  proof -
    from that obtain j where
      "FindBestQuantization_passes j env \<tau> n (FindBestQuantization_init env \<tau> img) = Break r"
      unfolding FindBestQuantization_def using loop_passes by blast
    with pre [of j] show ?thesis by (simp add: state_of_def)
  qed
  from ok [OF pre] ok [OF fin] show ?thesis by blast
qed

lemma toy_run:
  "\<exists>r. FindBestQuantization_passes (Suc (Suc (Suc 0))) toy_codec 1 10
     (FindBestQuantization_init toy_codec 1 1) = Break r \<and> scale_log r = [1, 2]"
  by (simp add: FindBestQuantization_init_def FindBestQuantization_pass_def compare_step_def
      toy_codec_def Let_def adjust_loop.simps FilledImage_def initial_quant_val_ac_def
      initial_quant_val_dc_def TileDistMap_def kBlockEdge_def upto.simps set_pixel_def
      scale_quant_field_def kQuantScale_def kMaxOuterIters_def fl_evals)

theorem kQuantScale_index_positive_witness:
  "map_option scale_log (FindBestQuantization toy_codec 1 10 1) = Some [1, 2] \<and>
   kQuantScale ! 1 \<noteq> 0 \<and> kQuantScale ! 2 \<noteq> 0"
proof -
  from toy_run obtain r where
    r: "FindBestQuantization_passes (Suc (Suc (Suc 0))) toy_codec 1 10
          (FindBestQuantization_init toy_codec 1 1) = Break r"
    and log: "scale_log r = [1, 2]"
    by blast
  have res: "FindBestQuantization toy_codec 1 10 1 = Some r"
    unfolding FindBestQuantization_def by (rule passes_loop [OF r])
  with kQuantScale_index_positive [of "Suc (Suc (Suc 0))" toy_codec 1 10 1]
  have "\<forall>i\<in>set (scale_log r). 1 \<le> i \<and> i < kMaxOuterIters \<and> kQuantScale ! i \<noteq> 0"
    by blast
  then have "kQuantScale ! 1 \<noteq> 0" "kQuantScale ! 2 \<noteq> 0"
    by (simp_all add: log)
  with res log show ?thesis by simp
qed


lemma compare_step_iter:
  assumes "butteraugli_iter s \<le> max 0 n"
  shows "butteraugli_iter (state_of (compare_step env dc n s)) \<le> max 0 n"
  using assms unfolding compare_step_def Let_def state_of_def
  by (auto split: prod.splits if_splits)

lemma pass_iter:
  assumes "butteraugli_iter s \<le> max 0 n"
  shows "butteraugli_iter (state_of (FindBestQuantization_pass env \<tau> n s)) \<le> max 0 n"
proof (cases "compare_step env (fl (initial_quant_val_dc / \<tau>)) n s")
  case (Break s1)
  then show ?thesis
    using compare_step_iter [OF assms, of env "fl (initial_quant_val_dc / \<tau>)"]
    by (simp add: FindBestQuantization_pass_def state_of_def)
next
  case (Continue s1)
  then have "butteraugli_iter s1 \<le> max 0 n"
    using compare_step_iter [OF assms, of env "fl (initial_quant_val_dc / \<tau>)"]
    by (simp add: state_of_def)
  then show ?thesis
    by (simp add: FindBestQuantization_pass_def Continue Let_def state_of_def
        split: prod.splits)
qed

lemma butteraugli_iter_bounded_from:
  "butteraugli_iter s \<le> max 0 n \<Longrightarrow>
   butteraugli_iter (state_of (FindBestQuantization_passes k env \<tau> n s)) \<le> max 0 n"
proof (induction k arbitrary: s)
  case 0
  then show ?case by (simp add: state_of_def)
next
  case (Suc k)
  show ?case
  proof (cases "FindBestQuantization_pass env \<tau> n s")
    case (Break s')
    then show ?thesis using pass_iter [OF Suc.prems, of env \<tau>]
      by (simp add: state_of_def)
  next
    case (Continue s')
    then have "butteraugli_iter s' \<le> max 0 n"
      using pass_iter [OF Suc.prems, of env \<tau>] by (simp add: state_of_def)
    then show ?thesis using Continue Suc.IH [of s'] by simp
  qed
qed

text \<open>
  However long the loop runs, the comparator is called at most
  \<open>max_butteraugli_iters\<close> times.
\<close>

lemma butteraugli_iter_bounded:
  "butteraugli_iter (state_of (FindBestQuantization_passes k env \<tau> n
      (FindBestQuantization_init env \<tau> img))) \<le> max 0 n"
  by (rule butteraugli_iter_bounded_from) (simp add: FindBestQuantization_init_def)

section \<open>Properties of the target-size controller\<close>

declare halving_loop.simps [simp del] bisection_loop.simps [simp del]

lemma halving_loop_result:
  "none_fits target_sz s \<Longrightarrow> length (attempts s) = i \<Longrightarrow> i \<le> 10 \<Longrightarrow>
   fits_result target_sz (halving_loop env quant_dc quant_ac target_sz i s) \<or>
   (none_fits target_sz (halving_loop env quant_dc quant_ac target_sz i s) \<and>
    length (attempts (halving_loop env quant_dc quant_ac target_sz i s)) = 10)"
proof (induction env quant_dc quant_ac target_sz i s rule: halving_loop.induct)
  case (1 env quant_dc quant_ac target_sz i s)
  show ?case
  proof (cases "i < 10")
    case False
    then have "halving_loop env quant_dc quant_ac target_sz i s = s"
      by (subst halving_loop.simps) simp
    with False "1.prems" show ?thesis by simp
  next
    case True
    define img1 where "img1 = snd (ScaleQuantizationMap env quant_dc quant_ac (scale_good s) (ts_img s))"
    define c where "c = Encode env img1"
    define s1 where "s1 = s\<lparr>ts_img := img1, candidate := c, attempts := attempts s @ [c]\<rparr>"
    show ?thesis
    proof (cases "length c \<le> target_sz")
      case fit: True
      have "halving_loop env quant_dc quant_ac target_sz i s = s1\<lparr>compressed := c\<rparr>"
        using True fit
        by (subst halving_loop.simps) (simp add: Let_def img1_def c_def s1_def)
      moreover have "fits_result target_sz (s1\<lparr>compressed := c\<rparr>)"
        using fit by (simp add: fits_result_def s1_def)
      ultimately show ?thesis by simp
    next
      case nofit: False
      define s2 where "s2 = s1\<lparr>scale_bad := scale_good s1, scale_good := scale_good s1 * 0.5\<rparr>"
      have eq: "halving_loop env quant_dc quant_ac target_sz i s =
                halving_loop env quant_dc quant_ac target_sz (i + 1) s2"
        using True nofit
        by (subst halving_loop.simps) (simp add: Let_def img1_def c_def s1_def s2_def)
      have nf: "none_fits target_sz s2"
        using "1.prems"(1) nofit by (auto simp: none_fits_def s2_def s1_def)
      have len: "length (attempts s2) = i + 1"
        using "1.prems"(2) by (simp add: s2_def s1_def)
      have "fits_result target_sz (halving_loop env quant_dc quant_ac target_sz (i + 1) s2) \<or>
            (none_fits target_sz (halving_loop env quant_dc quant_ac target_sz (i + 1) s2) \<and>
             length (attempts (halving_loop env quant_dc quant_ac target_sz (i + 1) s2)) = 10)"
        using "1.IH" [OF True img1_def c_def s1_def nofit, folded s2_def, OF nf len] True
        by simp
      then show ?thesis by (simp add: eq)
    qed
  qed
qed


lemma bisection_loop_result:
  "length (compressed s) \<le> target_sz \<Longrightarrow>
   length (compressed (bisection_loop env quant_dc quant_ac target_sz i s)) \<le> target_sz \<and>
   set (attempts s) \<subseteq> set (attempts (bisection_loop env quant_dc quant_ac target_sz i s))"
proof (induction env quant_dc quant_ac target_sz i s rule: bisection_loop.induct)
  case (1 env quant_dc quant_ac target_sz i s)
  show ?case
  proof (cases "i < 16")
    case False
    then have "bisection_loop env quant_dc quant_ac target_sz i s = s"
      by (subst bisection_loop.simps) simp
    with "1.prems" show ?thesis by simp
  next
    case True
    define scale where "scale = 0.5 * (scale_bad s + scale_good s)"
    obtain changed img1 where sq:
      "ScaleQuantizationMap env quant_dc quant_ac scale (ts_img s) = (changed, img1)"
      by (cases "ScaleQuantizationMap env quant_dc quant_ac scale (ts_img s)")
    show ?thesis
    proof (cases changed)
      case False
      then have "bisection_loop env quant_dc quant_ac target_sz i s = s\<lparr>ts_img := img1\<rparr>"
        using True sq by (subst bisection_loop.simps) (simp add: Let_def scale_def)
      with "1.prems" show ?thesis by simp
    next
      case chg: True
      define c where "c = Encode env img1"
      define s1 where "s1 = s\<lparr>ts_img := img1, candidate := c, attempts := attempts s @ [c]\<rparr>"
      define s2 where "s2 = (if length c \<le> target_sz
                   then s1\<lparr>compressed := c, scale_good := scale\<rparr>
                   else s1\<lparr>scale_bad := scale\<rparr>)"
      have eq: "bisection_loop env quant_dc quant_ac target_sz i s =
                bisection_loop env quant_dc quant_ac target_sz (i + 1) s2"
        using True sq chg
        by (subst bisection_loop.simps) (simp add: Let_def scale_def c_def s1_def s2_def)
      have inv: "length (compressed s2) \<le> target_sz"
        using "1.prems" by (simp add: s2_def s1_def)
      have sub: "set (attempts s) \<subseteq> set (attempts s2)"
        by (auto simp: s2_def s1_def)
      have "length (compressed (bisection_loop env quant_dc quant_ac target_sz (i + 1) s2))
              \<le> target_sz \<and>
            set (attempts s2) \<subseteq>
              set (attempts (bisection_loop env quant_dc quant_ac target_sz (i + 1) s2))"
        using "1.IH" [OF True scale_def refl sq [symmetric] _ c_def s1_def] chg inv
        by (simp add: s2_def)
      with sub show ?thesis by (auto simp: eq)
    qed
  qed
qed

text \<open>
  Claim C4. If any candidate that the controller encoded has size at most
  \<open>target_size\<close>, the returned string has size at most \<open>target_size\<close>; if none
  has, the controller has made exactly the 10 attempts of the halving loop and
  returns the last candidate.
\<close>

theorem CompressToTargetSize_fits:
  "((\<exists>c\<in>set (attempts (snd (CompressToTargetSize env target_sz img))).
        length c \<le> target_sz) \<longrightarrow>
      length (fst (CompressToTargetSize env target_sz img)) \<le> target_sz) \<and>
   ((\<forall>c\<in>set (attempts (snd (CompressToTargetSize env target_sz img))).
        target_sz < length c) \<longrightarrow>
      length (attempts (snd (CompressToTargetSize env target_sz img))) = 10 \<and>
      fst (CompressToTargetSize env target_sz img) =
        last (attempts (snd (CompressToTargetSize env target_sz img))))"
proof -
  obtain quant_dc quant_ac where gq: "GetQuantField env img = (quant_dc, quant_ac)"
    by (cases "GetQuantField env img")
  define s0 :: "'a target_state" where
    "s0 = \<lparr>ts_img = img, scale_bad = 1, scale_good = 1, candidate = [],
           compressed = [], attempts = []\<rparr>"
  define s where "s = halving_loop env quant_dc quant_ac target_sz 0 s0"
  define s' where "s' = bisection_loop env quant_dc quant_ac target_sz 0 s"
  have res: "CompressToTargetSize env target_sz img =
      (if compressed s = [] then (candidate s, s)
       else if scale_good s = 1 then (compressed s, s) else (compressed s', s'))"
    by (simp add: CompressToTargetSize_def gq Let_def s_def s0_def s'_def)
  have "none_fits target_sz s0" "length (attempts s0) = 0"
    by (simp_all add: none_fits_def s0_def)
  then consider (fit) "fits_result target_sz s"
    | (none) "none_fits target_sz s" "length (attempts s) = 10"
    using halving_loop_result [of target_sz s0 0 env quant_dc quant_ac]
    by (auto simp: s_def)
  then show ?thesis
  proof cases
    case fit
    then have f: "attempts s \<noteq> []" "candidate s = last (attempts s)"
      "compressed s = candidate s" "length (candidate s) \<le> target_sz"
      unfolding fits_result_def by blast+
    have b: "length (compressed s') \<le> target_sz" "set (attempts s) \<subseteq> set (attempts s')"
      using bisection_loop_result [of s target_sz env quant_dc quant_ac 0] f
      by (simp_all add: s'_def)
    have in_s: "last (attempts s) \<in> set (attempts s)"
      using f(1) by simp
    have len: "length (fst (CompressToTargetSize env target_sz img)) \<le> target_sz"
      using f b by (simp add: res)
    have fit_last: "length (last (attempts s)) \<le> target_sz"
      using f(2) f(4) by simp
    have "last (attempts s) \<in> set (attempts (snd (CompressToTargetSize env target_sz img)))"
      using b(2) in_s by (auto simp: res)
    with fit_last have "\<exists>c\<in>set (attempts (snd (CompressToTargetSize env target_sz img))).
            length c \<le> target_sz"
      by blast
    with len show ?thesis by auto
  next
    case none
    then have n: "\<forall>c\<in>set (attempts s). target_sz < length c" "compressed s = []"
      "attempts s \<noteq> [] \<longrightarrow> candidate s = last (attempts s)"
      unfolding none_fits_def by blast+
    have ne: "attempts s \<noteq> []" using none(2) by auto
    have r: "CompressToTargetSize env target_sz img = (candidate s, s)"
      using n(2) by (simp add: res)
    show ?thesis
      using n ne none(2) by (auto simp: r)
  qed
qed

theorem CompressToTargetSize_fits_witness:
  "map length (attempts (snd (CompressToTargetSize toy_codec 5 1))) = [9, 5, 7, 5] \<and>
   length (fst (CompressToTargetSize toy_codec 5 1)) \<le> 5 \<and>
   map length (attempts (snd (CompressToTargetSize toy_codec 0 1))) =
     [9, 5, 3, 1, 1, 1, 1, 1, 1, 1] \<and>
   length (fst (CompressToTargetSize toy_codec 0 1)) = 1"
proof -
  have fit: "map length (attempts (snd (CompressToTargetSize toy_codec 5 1))) = [9, 5, 7, 5]"
    by (simp add: CompressToTargetSize_def toy_codec_def Let_def halving_loop.simps
        bisection_loop.simps ScaleQuantizationMap_def ScaleImage_def)
  have none: "map length (attempts (snd (CompressToTargetSize toy_codec 0 1))) =
      [9, 5, 3, 1, 1, 1, 1, 1, 1, 1]"
    by (simp add: CompressToTargetSize_def toy_codec_def Let_def halving_loop.simps
        ScaleQuantizationMap_def ScaleImage_def)
  have "(5::nat) \<in> set (map length (attempts (snd (CompressToTargetSize toy_codec 5 1))))"
    by (simp add: fit)
  then obtain x where "x \<in> set (attempts (snd (CompressToTargetSize toy_codec 5 1)))"
    and "length x = 5"
    by auto
  then have "\<exists>c\<in>set (attempts (snd (CompressToTargetSize toy_codec 5 1))). length c \<le> 5"
    by (intro bexI [of _ x]) simp_all
  with CompressToTargetSize_fits [of toy_codec 5 1]
  have r1: "length (fst (CompressToTargetSize toy_codec 5 1)) \<le> 5"
    by blast
  have "\<forall>n\<in>set (map length (attempts (snd (CompressToTargetSize toy_codec 0 1)))). 0 < n"
    by (simp add: none)
  then have "\<forall>c\<in>set (attempts (snd (CompressToTargetSize toy_codec 0 1))). 0 < length c"
    by simp
  with CompressToTargetSize_fits [of toy_codec 0 1]
  have "fst (CompressToTargetSize toy_codec 0 1) =
        last (attempts (snd (CompressToTargetSize toy_codec 0 1)))"
    and ne: "length (attempts (snd (CompressToTargetSize toy_codec 0 1))) = 10"
    by blast+
  then have "length (fst (CompressToTargetSize toy_codec 0 1)) =
        last (map length (attempts (snd (CompressToTargetSize toy_codec 0 1))))"
    by (subst last_map) auto
  then have r2: "length (fst (CompressToTargetSize toy_codec 0 1)) = 1"
    by (simp add: none)
  from fit r1 none r2 show ?thesis by blast
qed

section \<open>Properties of Optimize\<close>

declare sweep.simps [simp del] resolution_loop.simps [simp del]

lemma grid_rec:
  assumes "0 < res"
  shows "grid st res en = (if st \<le> en then insert st (grid (st + res) res en) else {})"
proof (cases "st \<le> en")
  case False
  then show ?thesis by (auto simp: grid_def)
next
  case True
  have "x \<in> grid st res en \<longleftrightarrow> x = st \<or> x \<in> grid (st + res) res en" for x
  proof
    assume x: "x \<in> grid st res en"
    show "x = st \<or> x \<in> grid (st + res) res en"
    proof (cases "x = st")
      case False
      from x have d: "res dvd (x - st)" and le: "st \<le> x" "x \<le> en"
        by (simp_all add: grid_def)
      from d obtain k where k: "x - st = res * k" by (auto simp: dvd_def)
      have "0 < res * k" using False le(1) k by linarith
      then have "0 < k"
        using assms by (rule zero_less_mult_pos)
      then have "res \<le> res * k" using assms by simp
      then have "st + res \<le> x" using k by linarith
      moreover have "res dvd (x - (st + res))"
        using dvd_diff [OF d dvd_refl [of res]] by (simp add: algebra_simps)
      ultimately show ?thesis using le by (simp add: grid_def)
    qed simp
  next
    assume "x = st \<or> x \<in> grid (st + res) res en"
    then show "x \<in> grid st res en"
    proof
      assume "x = st" then show ?thesis using True by (simp add: grid_def)
    next
      assume "x \<in> grid (st + res) res en"
      then have "st + res \<le> x" "x \<le> en" "res dvd (x - (st + res))"
        by (simp_all add: grid_def)
      moreover from this(3) have "res dvd (x - st)"
        using dvd_add [of res "x - (st + res)" res] by (simp add: algebra_simps)
      ultimately show ?thesis using assms by (simp add: grid_def)
    qed
  qed
  then show ?thesis using True by auto
qed

lemma sweep_spec:
  "computes eval f \<Longrightarrow> 0 < res \<Longrightarrow> bo = f bv \<Longrightarrow>
   fst (snd (sweep eval res en val (bv, bo, s))) = f (fst (sweep eval res en val (bv, bo, s))) \<and>
   fst (sweep eval res en val (bv, bo, s)) \<in> insert bv (grid val res en) \<and>
   f (fst (sweep eval res en val (bv, bo, s))) \<le> f bv \<and>
   (\<forall>g\<in>grid val res en. f (fst (sweep eval res en val (bv, bo, s))) \<le> f g)"
proof (induction eval res en val "(bv, bo, s)" arbitrary: bv bo s rule: sweep.induct)
  case (1 eval res en val bv bo s)
  note comp = "1.prems"(1) and pos = "1.prems"(2) and bo = "1.prems"(3)
  show ?case
  proof (cases "val \<le> en")
    case False
    then have "sweep eval res en val (bv, bo, s) = (bv, bo, s)"
      by (subst sweep.simps) simp
    moreover have "grid val res en = {}" using False by (auto simp: grid_def)
    ultimately show ?thesis using bo by simp
  next
    case True
    obtain objval s' where ev: "eval_call eval val s = (objval, s')"
      by (cases "eval_call eval val s")
    have obj: "objval = f val"
      using comp [unfolded computes_def, rule_format, of val s] ev by simp
    define nb where "nb = (if objval < bo then (val, objval, s') else (bv, bo, s'))"
    have eq: "sweep eval res en val (bv, bo, s) = sweep eval res en (val + res) nb"
      using True pos by (subst sweep.simps) (simp add: ev nb_def)
    obtain bv1 bo1 where nb: "nb = (bv1, bo1, s')" and b1: "bo1 = f bv1"
      and c1: "bv1 = val \<or> bv1 = bv" and m1: "f bv1 \<le> f bv" "f bv1 \<le> f val"
      using obj bo by (cases "objval < bo") (auto simp: nb_def)
    have IH: "fst (snd (sweep eval res en (val + res) (bv1, bo1, s'))) =
                f (fst (sweep eval res en (val + res) (bv1, bo1, s'))) \<and>
              fst (sweep eval res en (val + res) (bv1, bo1, s')) \<in> insert bv1 (grid (val + res) res en) \<and>
              f (fst (sweep eval res en (val + res) (bv1, bo1, s'))) \<le> f bv1 \<and>
              (\<forall>g\<in>grid (val + res) res en. f (fst (sweep eval res en (val + res) (bv1, bo1, s'))) \<le> f g)"
      using "1.hyps" [OF _ refl ev [symmetric] _ comp pos b1] True pos nb by (simp add: nb_def)
    have g: "grid val res en = insert val (grid (val + res) res en)"
      using grid_rec [OF pos, of val en] True by simp
    show ?thesis
      unfolding eq nb g using IH c1 m1 by auto
  qed
qed


lemma grid_bounds: "g \<in> grid st res en \<Longrightarrow> st \<le> g \<and> g \<le> en"
  by (simp add: grid_def)

lemma grid_above:
  assumes "0 < res" "st \<le> x" "x + res \<le> en"
  shows "\<exists>g\<in>grid st res en. x < g \<and> g \<le> x + res"
proof -
  define g where "g = x + res - (x - st) mod res"
  have m: "0 \<le> (x - st) mod res" "(x - st) mod res < res"
    using assms(1) by simp_all
  have "g - st = (x - st) - (x - st) mod res + res"
    by (simp add: g_def)
  also have "\<dots> = res * ((x - st) div res) + res"
    by (simp add: minus_mod_eq_mult_div)
  finally have "res dvd (g - st)" by simp
  moreover have "x < g" "g \<le> x + res" using m by (simp_all add: g_def)
  ultimately have "g \<in> grid st res en"
    using assms by (simp add: grid_def)
  with \<open>x < g\<close> \<open>g \<le> x + res\<close> show ?thesis by blast
qed

lemma grid_below:
  assumes "0 < res" "st < x" "x \<le> en"
  shows "\<exists>g\<in>grid st res en. x - res \<le> g \<and> g < x"
proof -
  define g where "g = x - 1 - (x - 1 - st) mod res"
  have m: "0 \<le> (x - 1 - st) mod res" "(x - 1 - st) mod res < res"
    using assms(1) by simp_all
  have le: "(x - 1 - st) mod res \<le> x - 1 - st"
    using assms(1,2) by (intro zmod_le_nonneg_dividend) simp
  have "g - st = (x - 1 - st) - (x - 1 - st) mod res"
    by (simp add: g_def)
  also have "\<dots> = res * ((x - 1 - st) div res)"
    by (simp add: minus_mod_eq_mult_div)
  finally have "res dvd (g - st)" by simp
  moreover have "x - res \<le> g" "g < x" "st \<le> g" using m le by (simp_all add: g_def)
  ultimately have "g \<in> grid st res en"
    using assms by (simp add: grid_def)
  with \<open>x - res \<le> g\<close> \<open>g < x\<close> show ?thesis by blast
qed

lemma narrow:
  assumes uni: "unimodal_on f lo a b hi" and res: "0 < res"
    and win: "lo \<le> st" "en \<le> hi" "st \<le> bv" "bv \<le> en"
    and p: "a \<le> p" "p \<le> b" "st \<le> p" "p \<le> en"
    and r: "bv' \<in> insert bv (grid st res en)" "\<forall>g\<in>grid st res en. f bv' \<le> f g"
  shows "st \<le> bv' \<and> bv' \<le> en \<and> (\<exists>q. a \<le> q \<and> q \<le> b \<and> \<bar>q - bv'\<bar> \<le> res - 1)"
proof -
  from uni have dec: "\<And>x y. lo \<le> x \<Longrightarrow> x < y \<Longrightarrow> y \<le> a \<Longrightarrow> f y < f x"
    and inc: "\<And>x y. b \<le> x \<Longrightarrow> x < y \<Longrightarrow> y \<le> hi \<Longrightarrow> f x < f y"
    unfolding unimodal_on_def by blast+
  have inside: "st \<le> bv'" "bv' \<le> en"
    using r(1) win grid_bounds [of bv' st res en] by auto
  consider (left) "bv' < a" | (mid) "a \<le> bv'" "bv' \<le> b" | (right) "b < bv'"
    by linarith
  then have "\<exists>q. a \<le> q \<and> q \<le> b \<and> \<bar>q - bv'\<bar> \<le> res - 1"
  proof cases
    case mid
    then show ?thesis using res by (intro exI [of _ bv']) simp
  next
    case left
    have "a - bv' \<le> res - 1"
    proof (rule ccontr)
      assume "\<not> a - bv' \<le> res - 1"
      then have far: "bv' + res \<le> a" by simp
      then have "bv' + res \<le> en" using p by linarith
      from grid_above [OF res inside(1) this] obtain g where
        g: "g \<in> grid st res en" "bv' < g" "g \<le> bv' + res"
        by blast
      have "f g < f bv'"
        using dec [of bv' g] win(1) inside(1) g(2,3) far by linarith
      with r(2) g(1) show False by fastforce
    qed
    then show ?thesis
      using left p(1,2) by (intro exI [of _ a]) simp
  next
    case right
    have "bv' - b \<le> res - 1"
    proof (rule ccontr)
      assume "\<not> bv' - b \<le> res - 1"
      then have far: "b \<le> bv' - res" by simp
      then have "st < bv'" using p res by linarith
      from grid_below [OF res this inside(2)] obtain g where
        g: "g \<in> grid st res en" "bv' - res \<le> g" "g < bv'"
        by blast
      have "f g < f bv'"
        using inc [of g bv'] win(2) inside(2) g(2,3) far by linarith
      with r(2) g(1) show False by fastforce
    qed
    then show ?thesis
      using right p(1,2) by (intro exI [of _ b]) simp
  qed
  with inside show ?thesis by blast
qed


lemma Optimize_sweeps:
  "Optimize eval minval maxval best_val best_objval s =
     (let b16 = sweep eval 16 maxval minval (best_val, best_objval, s);
          b4 = sweep eval 4 (min maxval (fst b16 + 16 - 1)) (max minval (fst b16 - 16 + 1)) b16;
          b1 = sweep eval 1 (min maxval (fst b4 + 4 - 1)) (max minval (fst b4 - 4 + 1)) b4
      in (fst b1, fst (snd b1), SetVal eval (fst b1) (snd (snd b1))))"
  unfolding Optimize_def
  by (simp add: resolution_loop.simps Let_def split: prod.splits)

lemma resolution_step:
  assumes comp: "computes eval f" and uni: "unimodal_on f lo a b hi" and res: "0 < res"
    and win: "lo \<le> st" "en \<le> hi" "st \<le> bv" "bv \<le> en"
    and p: "\<exists>p. a \<le> p \<and> p \<le> b \<and> st \<le> p \<and> p \<le> en"
    and bo: "bo = f bv"
  shows "\<exists>v s'. sweep eval res en st (bv, bo, s) = (v, f v, s') \<and> lo \<le> v \<and> v \<le> hi \<and>
           (\<exists>q. a \<le> q \<and> q \<le> b \<and> \<bar>q - v\<bar> \<le> res - 1)"
proof -
  obtain v o' s' where R: "sweep eval res en st (bv, bo, s) = (v, o', s')"
    by (metis prod_cases3)
  from sweep_spec [OF comp res bo, of en st s]
  have sp: "o' = f v" "v \<in> insert bv (grid st res en)" "\<forall>g\<in>grid st res en. f v \<le> f g"
    unfolding R fst_conv snd_conv by blast+
  from p obtain p' where p': "a \<le> p'" "p' \<le> b" "st \<le> p'" "p' \<le> en" by blast
  from narrow [OF uni res win p' sp(2) sp(3)]
  have n: "st \<le> v" "v \<le> en" "\<exists>q. a \<le> q \<and> q \<le> b \<and> \<bar>q - v\<bar> \<le> res - 1"
    by blast+
  have "lo \<le> v" "v \<le> hi" using n(1,2) win(1,2) by linarith+
  with R sp(1) n(3) show ?thesis by blast
qed

lemma unimodal_minimum:
  assumes "unimodal_on f lo a b hi" "a \<le> r" "r \<le> b" "lo \<le> x" "x \<le> hi"
  shows "f r \<le> f x"
proof -
  from assms(1) have dec: "\<And>x y. lo \<le> x \<Longrightarrow> x < y \<Longrightarrow> y \<le> a \<Longrightarrow> f y < f x"
    and flat: "\<And>x. a \<le> x \<Longrightarrow> x \<le> b \<Longrightarrow> f x = f a"
    and inc: "\<And>x y. b \<le> x \<Longrightarrow> x < y \<Longrightarrow> y \<le> hi \<Longrightarrow> f x < f y"
    and ab: "a \<le> b"
    unfolding unimodal_on_def by blast+
  have r: "f r = f a" using flat [of r] assms(2,3) by simp
  have fb: "f b = f a" using flat [of b] ab by simp
  consider "x < a" | "a \<le> x" "x \<le> b" | "b < x" by linarith
  then show ?thesis
  proof cases
    case 1
    then show ?thesis using dec [of x a] assms(4) r by simp
  next
    case 2
    then show ?thesis using flat [of x] r by simp
  next
    case 3
    then show ?thesis using inc [of b x] assms(5) r fb by simp
  qed
qed

text \<open>
  Claim C3, as amended. Let the objective strictly decrease up to its
  minimisers \<open>[a, b]\<close> and strictly increase after them on \<open>[minval, maxval]\<close>, and
  let \<open>Optimize\<close> be called with a \<open>best_val\<close> of the interval and its objective
  in \<open>*best_objval\<close>. Then \<open>Optimize\<close> returns a value that attains the global
  minimum of the objective on the interval (the minimiser, when there is no
  tie), leaves that minimum in \<open>*best_objval\<close> and ends with \<open>SetVal\<close> of the
  value; it consists of the sweeps with resolutions 16, 4 and 1, the range
  narrowed to \<open>[best - res + 1, best + res - 1]\<close> within the interval after each.
\<close>

theorem Optimize_unimodal:
  assumes comp: "computes eval f" and uni: "unimodal_on f minval a b maxval"
    and start: "minval \<le> best_val" "best_val \<le> maxval" "best_objval = f best_val"
  shows "a \<le> fst (Optimize eval minval maxval best_val best_objval s) \<and>
         fst (Optimize eval minval maxval best_val best_objval s) \<le> b \<and>
         fst (snd (Optimize eval minval maxval best_val best_objval s)) =
           f (fst (Optimize eval minval maxval best_val best_objval s)) \<and>
         (\<forall>x. minval \<le> x \<and> x \<le> maxval \<longrightarrow>
            f (fst (Optimize eval minval maxval best_val best_objval s)) \<le> f x) \<and>
         (\<exists>s'. snd (snd (Optimize eval minval maxval best_val best_objval s)) =
            SetVal eval (fst (Optimize eval minval maxval best_val best_objval s)) s') \<and>
         Optimize eval minval maxval best_val best_objval s =
           (let b16 = sweep eval 16 maxval minval (best_val, best_objval, s);
                b4 = sweep eval 4 (min maxval (fst b16 + 16 - 1))
                       (max minval (fst b16 - 16 + 1)) b16;
                b1 = sweep eval 1 (min maxval (fst b4 + 4 - 1))
                       (max minval (fst b4 - 4 + 1)) b4
            in (fst b1, fst (snd b1), SetVal eval (fst b1) (snd (snd b1))))"
proof -
  from uni have ab: "minval \<le> a" "a \<le> b" "b \<le> maxval"
    unfolding unimodal_on_def by blast+
  have pos: "(0::int) < 16" "(0::int) < 4" "(0::int) < 1" by simp_all
  have p16: "\<exists>p. a \<le> p \<and> p \<le> b \<and> minval \<le> p \<and> p \<le> maxval"
    using ab by (intro exI [of _ a]) simp
  obtain v16 s16 where b16: "sweep eval 16 maxval minval (best_val, best_objval, s) = (v16, f v16, s16)"
    and r16: "minval \<le> v16" "v16 \<le> maxval"
    and q16: "\<exists>q. a \<le> q \<and> q \<le> b \<and> \<bar>q - v16\<bar> \<le> 16 - 1"
    using resolution_step [OF comp uni pos(1) order_refl order_refl start(1) start(2) p16 start(3), of s]
    by blast
  from q16 obtain q where q: "a \<le> q" "q \<le> b" "\<bar>q - v16\<bar> \<le> 15" by auto
  define st4 where "st4 = max minval (v16 - 16 + 1)"
  define en4 where "en4 = min maxval (v16 + 16 - 1)"
  have w4: "minval \<le> st4" "en4 \<le> maxval" "st4 \<le> v16" "v16 \<le> en4"
    using r16 by (simp_all add: st4_def en4_def)
  have "a \<le> q \<and> q \<le> b \<and> st4 \<le> q \<and> q \<le> en4"
    unfolding st4_def en4_def using q ab by arith
  then have p4: "\<exists>p. a \<le> p \<and> p \<le> b \<and> st4 \<le> p \<and> p \<le> en4" by blast
  obtain v4 s4 where b4: "sweep eval 4 en4 st4 (v16, f v16, s16) = (v4, f v4, s4)"
    and r4: "minval \<le> v4" "v4 \<le> maxval"
    and q4: "\<exists>q. a \<le> q \<and> q \<le> b \<and> \<bar>q - v4\<bar> \<le> 4 - 1"
    using resolution_step [OF comp uni pos(2) w4 p4 refl, of s16]
    by blast
  from q4 obtain q' where q': "a \<le> q'" "q' \<le> b" "\<bar>q' - v4\<bar> \<le> 3" by auto
  define st1 where "st1 = max minval (v4 - 4 + 1)"
  define en1 where "en1 = min maxval (v4 + 4 - 1)"
  have w1: "minval \<le> st1" "en1 \<le> maxval" "st1 \<le> v4" "v4 \<le> en1"
    using r4 by (simp_all add: st1_def en1_def)
  have "a \<le> q' \<and> q' \<le> b \<and> st1 \<le> q' \<and> q' \<le> en1"
    unfolding st1_def en1_def using q' ab by arith
  then have p1: "\<exists>p. a \<le> p \<and> p \<le> b \<and> st1 \<le> p \<and> p \<le> en1" by blast
  obtain v1 s1 where b1: "sweep eval 1 en1 st1 (v4, f v4, s4) = (v1, f v1, s1)"
    and q1: "\<exists>q. a \<le> q \<and> q \<le> b \<and> \<bar>q - v1\<bar> \<le> 1 - 1"
    using resolution_step [OF comp uni pos(3) w1 p1 refl, of s4]
    by blast
  from q1 have in_ab: "a \<le> v1" "v1 \<le> b" by auto
  have opt: "Optimize eval minval maxval best_val best_objval s = (v1, f v1, SetVal eval v1 s1)"
    unfolding Optimize_sweeps Let_def b16 fst_conv st4_def [symmetric] en4_def [symmetric] b4
      st1_def [symmetric] en1_def [symmetric] b1 snd_conv ..
  have least: "\<forall>x. minval \<le> x \<and> x \<le> maxval \<longrightarrow> f v1 \<le> f x"
    using unimodal_minimum [OF uni in_ab] by blast
  have "a \<le> fst (Optimize eval minval maxval best_val best_objval s) \<and>
         fst (Optimize eval minval maxval best_val best_objval s) \<le> b \<and>
         fst (snd (Optimize eval minval maxval best_val best_objval s)) =
           f (fst (Optimize eval minval maxval best_val best_objval s)) \<and>
         (\<forall>x. minval \<le> x \<and> x \<le> maxval \<longrightarrow>
            f (fst (Optimize eval minval maxval best_val best_objval s)) \<le> f x) \<and>
         (\<exists>s'. snd (snd (Optimize eval minval maxval best_val best_objval s)) =
            SetVal eval (fst (Optimize eval minval maxval best_val best_objval s)) s')"
    unfolding opt using in_ab least by auto
  then show ?thesis
    using Optimize_sweeps [of eval minval maxval best_val best_objval s] by blast
qed


lemma computes_pure_eval: "computes (pure_eval f) f"
  by (simp add: computes_def pure_eval_def)

lemma unimodal_vee: "unimodal_on vee_objective 0 100 100 255"
  unfolding unimodal_on_def vee_objective_def by auto

lemma unimodal_tie: "unimodal_on tie_objective 0 119 120 255"
  unfolding unimodal_on_def tie_objective_def by auto

theorem Optimize_unimodal_witness:
  "computes (pure_eval vee_objective) vee_objective \<and>
   unimodal_on vee_objective 0 100 100 255 \<and>
   (0::int) \<le> 120 \<and> (120::int) \<le> 255 \<and>
   fst (Optimize (pure_eval vee_objective) 0 255 120 (vee_objective 120) ()) = 100 \<and>
   fst (snd (Optimize (pure_eval vee_objective) 0 255 120 (vee_objective 120) ())) = 0"
proof -
  have start: "(0::int) \<le> 120" "(120::int) \<le> 255" by simp_all
  note t = Optimize_unimodal [OF computes_pure_eval unimodal_vee start refl, of "()"]
  have r: "fst (Optimize (pure_eval vee_objective) 0 255 120 (vee_objective 120) ()) = 100"
    using t [THEN conjunct1] t [THEN conjunct2, THEN conjunct1] by (rule order_antisym [rotated])
  have "fst (snd (Optimize (pure_eval vee_objective) 0 255 120 (vee_objective 120) ())) =
        vee_objective (fst (Optimize (pure_eval vee_objective) 0 255 120 (vee_objective 120) ()))"
    by (rule t [THEN conjunct2, THEN conjunct2, THEN conjunct1])
  then have o: "fst (snd (Optimize (pure_eval vee_objective) 0 255 120 (vee_objective 120) ())) = 0"
    unfolding r by (simp add: vee_objective_def)
  from computes_pure_eval [of vee_objective] unimodal_vee start r o show ?thesis
    by blast
qed

text \<open>
  Claim C3 as stated fails on ties: a value is replaced only by one with a
  strictly smaller objective. With the objective that is 0 at both 119 and 120,
  searched over \<open>[0, 255]\<close> from 120 as \<open>FindBestYToBCorrelation\<close> does, the
  result is 120 and not the lowest minimiser 119.
\<close>

theorem Optimize_tie_counterexample:
  "unimodal_on tie_objective 0 119 120 255 \<and>
   tie_objective 119 = tie_objective 120 \<and>
   fst (Optimize (pure_eval tie_objective) 0 255 120 (tie_objective 120) ()) = 120"
proof -
  have "fst (Optimize (pure_eval tie_objective) 0 255 120 (tie_objective 120) ()) = 120"
    by (simp add: Optimize_def resolution_loop.simps sweep.simps pure_eval_def tie_objective_def)
  moreover have "tie_objective 119 = tie_objective 120"
    by (simp add: tie_objective_def)
  ultimately show ?thesis using unimodal_tie by simp
qed

section \<open>Properties of the pipelines\<close>

lemma frame_payload_not_NotImplemented:
  "frame_payload env params opsin mode d \<noteq> Some (Inl NotImplemented)"
  by (simp add: frame_payload_def Let_def split: option.splits)

lemma frame_payload_mode:
  "frame_payload env params opsin mode d = Some (Inr (m, bytes)) \<Longrightarrow> m = mode"
  by (auto simp: frame_payload_def Let_def split: option.splits)

text \<open>
  Claim C5, as amended. For every image that is not empty and every parameter
  setting, \<open>OpsinToPik\<close> takes exactly the first branch whose condition holds,
  in the order \<open>butteraugli_distance \<ge> 0\<close> (perceptual mode), \<open>target_bitrate > 0\<close>
  (target size), \<open>uniform_quant > 0\<close> (constant quant), \<open>fast_mode\<close> (fast
  pipeline), and frames the payload of that branch; it returns the error
  \<open>NotImplemented\<close> if and only if none of the four conditions holds.
\<close>

theorem OpsinToPik_mode_selection:
  assumes "xsize opsin \<noteq> 0" "ysize opsin \<noteq> 0"
  shows
    "(butteraugli_distance params \<ge> 0 \<longrightarrow>
        OpsinToPik env params opsin =
          frame_payload env params opsin PerceptualMode
            (CompressToButteraugliDistance env opsin params)) \<and>
     (\<not> butteraugli_distance params \<ge> 0 \<and> target_bitrate params > 0 \<longrightarrow>
        OpsinToPik env params opsin =
          frame_payload env params opsin TargetSizeMode
            (CompressToTargetSizeOf env opsin params
               (nat \<lfloor>real_of_int (xsize opsin * ysize opsin) * target_bitrate params / 8\<rfloor>))) \<and>
     (\<not> butteraugli_distance params \<ge> 0 \<and> \<not> target_bitrate params > 0 \<and>
      uniform_quant params > 0 \<longrightarrow>
        OpsinToPik env params opsin =
          frame_payload env params opsin ConstantQuantMode
            (Some (Encode (image_ops env) (Quantize (image_ops env)
               (SetQuant env (uniform_quant params) (FromOpsinImage env opsin)))))) \<and>
     (\<not> butteraugli_distance params \<ge> 0 \<and> \<not> target_bitrate params > 0 \<and>
      \<not> uniform_quant params > 0 \<and> fast_mode params \<longrightarrow>
        OpsinToPik env params opsin =
          frame_payload env params opsin FastPipeline (CompressFast env opsin params)) \<and>
     ((OpsinToPik env params opsin = Some (Inl NotImplemented)) =
        (\<not> butteraugli_distance params \<ge> 0 \<and> \<not> target_bitrate params > 0 \<and>
         \<not> uniform_quant params > 0 \<and> \<not> fast_mode params)) \<and>
     (\<forall>m bytes. OpsinToPik env params opsin = Some (Inr (m, bytes)) \<longrightarrow>
        m = (if butteraugli_distance params \<ge> 0 then PerceptualMode
             else if target_bitrate params > 0 then TargetSizeMode
             else if uniform_quant params > 0 then ConstantQuantMode
             else FastPipeline))"
  using assms
  by (auto simp: OpsinToPik_def Let_def frame_payload_not_NotImplemented
      dest: frame_payload_mode)


theorem OpsinToPik_mode_selection_witness:
  "OpsinToPik toy_encoder (toy_params 1 1 1 True) (FilledImage 1 1 0) =
     Some (Inr (PerceptualMode, [0, 1])) \<and>
   OpsinToPik toy_encoder (toy_params (- 1) 1 1 True) (FilledImage 1 1 0) =
     Some (Inr (TargetSizeMode, [0, 2])) \<and>
   OpsinToPik toy_encoder (toy_params (- 1) 0 (1 / 16) True) (FilledImage 1 1 0) =
     Some (Inr (ConstantQuantMode, [0, 0])) \<and>
   OpsinToPik toy_encoder (toy_params (- 1) 0 0 True) (FilledImage 1 1 0) =
     Some (Inr (FastPipeline, [0, 4])) \<and>
   OpsinToPik toy_encoder (toy_params (- 1) 0 0 False) (FilledImage 1 1 0) =
     Some (Inl NotImplemented)"
proof -
  have ne: "xsize (FilledImage 1 1 (0::real)) \<noteq> 0" "ysize (FilledImage 1 1 (0::real)) \<noteq> 0"
    by (simp_all add: FilledImage_def)
  note t = OpsinToPik_mode_selection [OF ne, of _ toy_encoder]
  have "OpsinToPik toy_encoder (toy_params 1 1 1 True) (FilledImage 1 1 0) =
        frame_payload toy_encoder (toy_params 1 1 1 True) (FilledImage 1 1 0) PerceptualMode
          (CompressToButteraugliDistance toy_encoder (FilledImage 1 1 0) (toy_params 1 1 1 True))"
    using t [of "toy_params 1 1 1 True", THEN conjunct1] by (simp add: toy_params_def)
  then have 1: "OpsinToPik toy_encoder (toy_params 1 1 1 True) (FilledImage 1 1 0) =
                Some (Inr (PerceptualMode, [0, 1]))"
    by (simp add: frame_payload_def toy_encoder_def)
  have "OpsinToPik toy_encoder (toy_params (- 1) 1 1 True) (FilledImage 1 1 0) =
        frame_payload toy_encoder (toy_params (- 1) 1 1 True) (FilledImage 1 1 0) TargetSizeMode
          (CompressToTargetSizeOf toy_encoder (FilledImage 1 1 0) (toy_params (- 1) 1 1 True)
            (nat \<lfloor>real_of_int (xsize (FilledImage 1 1 (0::real)) * ysize (FilledImage 1 1 (0::real))) *
                   target_bitrate (toy_params (- 1) 1 1 True) / 8\<rfloor>))"
    using t [of "toy_params (- 1) 1 1 True", THEN conjunct2, THEN conjunct1]
    by (simp add: toy_params_def)
  then have 2: "OpsinToPik toy_encoder (toy_params (- 1) 1 1 True) (FilledImage 1 1 0) =
                Some (Inr (TargetSizeMode, [0, 2]))"
    by (simp add: frame_payload_def toy_encoder_def)
  have "OpsinToPik toy_encoder (toy_params (- 1) 0 (1 / 16) True) (FilledImage 1 1 0) =
        frame_payload toy_encoder (toy_params (- 1) 0 (1 / 16) True) (FilledImage 1 1 0) ConstantQuantMode
          (Some (Encode (image_ops toy_encoder) (Quantize (image_ops toy_encoder)
             (SetQuant toy_encoder (uniform_quant (toy_params (- 1) 0 (1 / 16) True))
                (FromOpsinImage toy_encoder (FilledImage 1 1 0))))))"
    using t [of "toy_params (- 1) 0 (1 / 16) True", THEN conjunct2, THEN conjunct2, THEN conjunct1]
    by (simp add: toy_params_def)
  then have 3: "OpsinToPik toy_encoder (toy_params (- 1) 0 (1 / 16) True) (FilledImage 1 1 0) =
                Some (Inr (ConstantQuantMode, [0, 0]))"
    by (simp add: frame_payload_def toy_encoder_def toy_codec_def toy_params_def)
  have "OpsinToPik toy_encoder (toy_params (- 1) 0 0 True) (FilledImage 1 1 0) =
        frame_payload toy_encoder (toy_params (- 1) 0 0 True) (FilledImage 1 1 0) FastPipeline
          (CompressFast toy_encoder (FilledImage 1 1 0) (toy_params (- 1) 0 0 True))"
    using t [of "toy_params (- 1) 0 0 True", THEN conjunct2, THEN conjunct2, THEN conjunct2,
        THEN conjunct1]
    by (simp add: toy_params_def)
  then have 4: "OpsinToPik toy_encoder (toy_params (- 1) 0 0 True) (FilledImage 1 1 0) =
                Some (Inr (FastPipeline, [0, 4]))"
    by (simp add: frame_payload_def toy_encoder_def)
  have 5: "OpsinToPik toy_encoder (toy_params (- 1) 0 0 False) (FilledImage 1 1 0) =
           Some (Inl NotImplemented)"
    using t [of "toy_params (- 1) 0 0 False", THEN conjunct2, THEN conjunct2, THEN conjunct2,
        THEN conjunct2, THEN conjunct1]
    by (simp add: toy_params_def)
  from 1 2 3 4 5 show ?thesis by blast
qed

text \<open>
  Claim C5 as stated fails for an empty image: the test for one comes first, so
  with none of the four conditions true the error is that of the empty image
  and not \<open>NotImplemented\<close>.
\<close>

theorem OpsinToPik_empty_image_counterexample:
  "\<not> butteraugli_distance (toy_params (- 1) 0 0 False) \<ge> 0 \<and>
   \<not> target_bitrate (toy_params (- 1) 0 0 False) > 0 \<and>
   \<not> uniform_quant (toy_params (- 1) 0 0 False) > 0 \<and>
   \<not> fast_mode (toy_params (- 1) 0 0 False) \<and>
   OpsinToPik toy_encoder (toy_params (- 1) 0 0 False) (FilledImage 0 0 0) =
     Some (Inl EmptyImageError) \<and>
   OpsinToPik toy_encoder (toy_params (- 1) 0 0 False) (FilledImage 0 0 0) \<noteq>
     Some (Inl NotImplemented)"
  by (simp add: OpsinToPik_def toy_params_def FilledImage_def)

text \<open>
  For every encoder and every parameter setting, an empty image is answered with
  the error of the empty image.
\<close>

lemma OpsinToPik_empty_image:
  "xsize opsin = 0 \<or> ysize opsin = 0 \<Longrightarrow>
   OpsinToPik env params opsin = Some (Inl EmptyImageError)"
  by (simp add: OpsinToPik_def)

lemma unat_kMaxWidth: "unat kMaxWidth = 2 ^ 25 - 1"
  by (simp add: kMaxWidth_def)

lemma unat_ucast_32_64: "unat (ucast (x :: 32 word) :: 64 word) = unat x"
proof -
  have "unat x < 2 ^ 32" using unsigned_less [of x] by simp
  then have "unat x < 2 ^ 64" by simp
  then show ?thesis
    by (simp add: unsigned_ucast_eq take_bit_nat_eq_self)
qed

lemma unat_num_pixels:
  fixes x y :: "32 word"
  shows "unat ((ucast x :: 64 word) * ucast y) = unat x * unat y"
proof -
  have x: "unat x < 2 ^ 32" and y: "unat y < 2 ^ 32"
    using unsigned_less [of x] unsigned_less [of y] by simp_all
  have "unat x * unat y < 2 ^ 32 * 2 ^ 32"
    using x y by (intro mult_strict_mono) simp_all
  then have "unat x * unat y < 2 ^ 64" by simp
  then show ?thesis
    by (simp add: unat_word_ariths unat_ucast_32_64)
qed

text \<open>
  Claim C6. Whenever the header that was loaded has \<open>xsize > 2^25 - 1\<close>, or a
  pixel count \<open>xsize * ysize\<close> (the product of the numbers, which the 64-bit
  multiplication does not wrap) above \<open>max_num_pixels\<close>, \<open>PikToPixelsT\<close> returns an
  error; and whenever it succeeds, a header was loaded and both limits hold.
\<close>

theorem PikToPixelsT_limits:
  "(\<forall>header header_end.
      LoadHeader env bytes = Some (header, header_end) \<and>
      (2 ^ 25 - 1 < unat (hdr_xsize header) \<or>
       unat (max_num_pixels params) < unat (hdr_xsize header) * unat (hdr_ysize header)) \<longrightarrow>
      (\<exists>e. PikToPixelsT env params bytes = Inl e)) \<and>
   (\<forall>r. PikToPixelsT env params bytes = Inr r \<longrightarrow>
      (\<exists>header header_end.
         LoadHeader env bytes = Some (header, header_end) \<and>
         unat (hdr_xsize header) \<le> 2 ^ 25 - 1 \<and>
         unat (hdr_xsize header) * unat (hdr_ysize header) \<le> unat (max_num_pixels params)))"
proof -
  have ok: "\<exists>header header_end.
         LoadHeader env bytes = Some (header, header_end) \<and>
         unat (hdr_xsize header) \<le> 2 ^ 25 - 1 \<and>
         unat (hdr_xsize header) * unat (hdr_ysize header) \<le> unat (max_num_pixels params)"
    if r: "PikToPixelsT env params bytes = Inr r" for r
  proof -
    from r obtain header header_end where lh: "LoadHeader env bytes = Some (header, header_end)"
      by (cases "LoadHeader env bytes") (auto simp: PikToPixelsT_def split: if_splits)
    from r lh have w: "\<not> hdr_xsize header > kMaxWidth"
      and n: "\<not> (ucast (hdr_xsize header) :: 64 word) * ucast (hdr_ysize header)
                  > max_num_pixels params"
      by (auto simp: PikToPixelsT_def Let_def split: if_splits)
    from w have "unat (hdr_xsize header) \<le> 2 ^ 25 - 1"
      by (simp add: word_less_nat_alt unat_kMaxWidth)
    moreover from n have
      "unat (hdr_xsize header) * unat (hdr_ysize header) \<le> unat (max_num_pixels params)"
      by (simp add: word_less_nat_alt unat_num_pixels)
    ultimately show ?thesis using lh by blast
  qed
  have bad: "\<exists>e. PikToPixelsT env params bytes = Inl e"
    if lh: "LoadHeader env bytes = Some (header, header_end)"
      and big: "2 ^ 25 - 1 < unat (hdr_xsize header) \<or>
        unat (max_num_pixels params) < unat (hdr_xsize header) * unat (hdr_ysize header)"
    for header header_end
  proof (cases "PikToPixelsT env params bytes")
    case (Inl e)
    then show ?thesis by blast
  next
    case (Inr r)
    from ok [OF Inr] lh big show ?thesis by auto
  qed
  from ok bad show ?thesis by blast
qed


theorem PikToPixelsT_limits_witness:
  "LoadHeader (toy_decoder (2 ^ 25) 1) [0, 0, 0] =
     Some (\<lparr>hdr_xsize = 2 ^ 25, hdr_ysize = 1, flags = 0\<rparr>, 1) \<and>
   2 ^ 25 - 1 < unat (2 ^ 25 :: 32 word) \<and>
   isl (PikToPixelsT (toy_decoder (2 ^ 25) 1) toy_decode_params [0, 0, 0]) \<and>
   LoadHeader (toy_decoder 100 100) [0, 0, 0] =
     Some (\<lparr>hdr_xsize = 100, hdr_ysize = 100, flags = 0\<rparr>, 1) \<and>
   unat (max_num_pixels toy_decode_params) < unat (100 :: 32 word) * unat (100 :: 32 word) \<and>
   isl (PikToPixelsT (toy_decoder 100 100) toy_decode_params [0, 0, 0]) \<and>
   PikToPixelsT (toy_decoder 10 10) toy_decode_params [0, 0, 0] =
     Inr \<lparr>color = (), alpha = None, decoded_size = 3\<rparr> \<and>
   unat (10 :: 32 word) * unat (10 :: 32 word) \<le> unat (max_num_pixels toy_decode_params)"
proof -
  have h1: "LoadHeader (toy_decoder (2 ^ 25) 1) [0, 0, 0] =
              Some (\<lparr>hdr_xsize = 2 ^ 25, hdr_ysize = 1, flags = 0\<rparr>, 1)"
    by (simp add: toy_decoder_def)
  have w1: "2 ^ 25 - 1 < unat (2 ^ 25 :: 32 word)" by simp
  from PikToPixelsT_limits [of "toy_decoder (2 ^ 25) 1" "[0, 0, 0]" toy_decode_params] h1 w1
  have "\<exists>e. PikToPixelsT (toy_decoder (2 ^ 25) 1) toy_decode_params [0, 0, 0] = Inl e"
    by (metis Header.select_convs(1))
  then have e1: "isl (PikToPixelsT (toy_decoder (2 ^ 25) 1) toy_decode_params [0, 0, 0])"
    by auto
  have h2: "LoadHeader (toy_decoder 100 100) [0, 0, 0] =
              Some (\<lparr>hdr_xsize = 100, hdr_ysize = 100, flags = 0\<rparr>, 1)"
    by (simp add: toy_decoder_def)
  have w2: "unat (max_num_pixels toy_decode_params) <
              unat (100 :: 32 word) * unat (100 :: 32 word)"
    by (simp add: toy_decode_params_def)
  from PikToPixelsT_limits [of "toy_decoder 100 100" "[0, 0, 0]" toy_decode_params] h2 w2
  have "\<exists>e. PikToPixelsT (toy_decoder 100 100) toy_decode_params [0, 0, 0] = Inl e"
    by (metis Header.select_convs(1) Header.select_convs(2))
  then have e2: "isl (PikToPixelsT (toy_decoder 100 100) toy_decode_params [0, 0, 0])"
    by auto
  have ok: "PikToPixelsT (toy_decoder 10 10) toy_decode_params [0, 0, 0] =
              Inr \<lparr>color = (), alpha = None, decoded_size = 3\<rparr>"
    by (simp add: PikToPixelsT_def toy_decoder_def toy_decode_params_def kMaxWidth_def kAlpha_def
        Let_def)
  from PikToPixelsT_limits [of "toy_decoder 10 10" "[0, 0, 0]" toy_decode_params] ok
  have "\<exists>header header_end.
         LoadHeader (toy_decoder 10 10) [0, 0, 0] = Some (header, header_end) \<and>
         unat (hdr_xsize header) * unat (hdr_ysize header) \<le> unat (max_num_pixels toy_decode_params)"
    by blast
  then have fit: "unat (10 :: 32 word) * unat (10 :: 32 word) \<le>
                  unat (max_num_pixels toy_decode_params)"
    by (auto simp: toy_decoder_def)
  from h1 w1 e1 h2 w2 e2 ok fit show ?thesis by blast
qed

section \<open>Properties of the pixel conversions\<close>


lemma clamp_value_range: "0 \<le> M \<Longrightarrow> 0 \<le> clamp_value V M \<and> clamp_value V M \<le> M"
  by (simp add: clamp_value_def)

lemma clamp_Some:
  assumes "clamp V (real_of_int m) = Some w" "0 \<le> m"
  shows "int (unat w) = \<lfloor>clamp_value V (real_of_int m)\<rfloor>" and "int (unat w) \<le> m"
proof -
  define c where "c = clamp_value V (real_of_int m)"
  have c: "0 \<le> c" "c \<le> real_of_int m"
    using clamp_value_range [of "real_of_int m" V] assms(2) by (simp_all add: c_def)
  then have fl: "0 \<le> \<lfloor>c\<rfloor>" "\<lfloor>c\<rfloor> \<le> m"
    by (simp_all add: floor_le_iff le_floor_iff)
  from assms(1) have w: "w = word_of_int \<lfloor>c\<rfloor>" and r: "\<lfloor>c\<rfloor> \<le> 65535"
    using c(1) by (auto simp: clamp_def to_uint16_def c_def [symmetric] Let_def split: if_splits)
  have "uint w = \<lfloor>c\<rfloor>"
    unfolding w using fl(1) r by (simp add: uint_word_of_int take_bit_int_eq_self)
  then have u: "int (unat w) = \<lfloor>c\<rfloor>" by simp
  then show "int (unat w) = \<lfloor>clamp_value V (real_of_int m)\<rfloor>" by (simp add: c_def)
  from u fl(2) show "int (unat w) \<le> m" by simp
qed

lemma clamp_defined:
  assumes "0 \<le> m" "m \<le> 65535"
  shows "\<exists>w. clamp V (real_of_int m) = Some w"
proof -
  define c where "c = clamp_value V (real_of_int m)"
  have c: "0 \<le> c" "c \<le> real_of_int m"
    using clamp_value_range [of "real_of_int m" V] assms(1) by (simp_all add: c_def)
  then have "0 \<le> \<lfloor>c\<rfloor>" "\<lfloor>c\<rfloor> \<le> m"
    by (simp_all add: floor_le_iff le_floor_iff)
  with assms(2) have t: "0 \<le> \<lfloor>c\<rfloor> \<and> \<lfloor>c\<rfloor> \<le> 65535" by linarith
  have "clamp V (real_of_int m) = Some (word_of_int \<lfloor>c\<rfloor>)"
    unfolding clamp_def to_uint16_def Let_def c_def [symmetric] if_P [OF c(1)] if_P [OF t] ..
  then show ?thesis by blast
qed

lemma shift_one_Some: "shift_one n = Some p \<Longrightarrow> 0 \<le> n \<and> n \<le> 30 \<and> p = 2 ^ nat n \<and> 1 \<le> p"
  by (auto simp: shift_one_def split: if_splits)

lemma pow_le_16: "0 \<le> n \<Longrightarrow> n \<le> 16 \<Longrightarrow> (2::int) ^ nat n - 1 \<le> 65535"
proof -
  assume "0 \<le> n" "n \<le> 16"
  then have "nat n \<le> 16" by simp
  then have "(2::int) ^ nat n \<le> 2 ^ 16" by (intro power_increasing) simp_all
  then show ?thesis by simp
qed

lemma RGBPixelToYUV_range:
  assumes "RGBPixelToYUV r g b bits = Some (y, u, v)"
  shows "int (unat y) \<le> 2 ^ nat bits - 1 \<and> int (unat u) \<le> 2 ^ nat bits - 1 \<and>
         int (unat v) \<le> 2 ^ nat bits - 1"
proof -
  from assms obtain p where p: "shift_one bits = Some p"
    by (auto simp: RGBPixelToYUV_def split: option.splits)
  then have pp: "p = 2 ^ nat bits" "0 \<le> p - 1"
    using shift_one_Some [OF p] by simp_all
  from assms p obtain Y U V where
    "clamp Y (real_of_int (p - 1)) = Some y" "clamp U (real_of_int (p - 1)) = Some u"
    "clamp V (real_of_int (p - 1)) = Some v"
    by (auto simp: RGBPixelToYUV_def Let_def split: option.splits)
  then show ?thesis
    using clamp_Some(2) [OF _ pp(2)] pp(1) by blast
qed

lemma RGBPixelToYUV_defined:
  assumes "0 \<le> bits" "bits \<le> 16"
  shows "\<exists>y u v. RGBPixelToYUV r g b bits = Some (y, u, v)"
proof -
  have p: "shift_one bits = Some (2 ^ nat bits)"
    using assms by (simp add: shift_one_def)
  have m: "(0::int) \<le> 2 ^ nat bits - 1" "(2::int) ^ nat bits - 1 \<le> 65535"
    using pow_le_16 [OF assms] by simp_all
  define maxv where "maxv = real_of_int (2 ^ nat bits - 1)"
  define Y where "Y = RGBtoYUVMatrixAdd ! 0 + RGBtoYUVMatrix ! 0 * r +
                    RGBtoYUVMatrix ! 1 * g + RGBtoYUVMatrix ! 2 * b"
  define U where "U = RGBtoYUVMatrixAdd ! 1 + RGBtoYUVMatrix ! 3 * r +
                    RGBtoYUVMatrix ! 4 * g + RGBtoYUVMatrix ! 5 * b"
  define V where "V = RGBtoYUVMatrixAdd ! 2 + RGBtoYUVMatrix ! 6 * r +
                    RGBtoYUVMatrix ! 7 * g + RGBtoYUVMatrix ! 8 * b"
  obtain y u v where "clamp (0.5 + maxv * Y) maxv = Some y"
    "clamp (0.5 + maxv * U) maxv = Some u" "clamp (0.5 + maxv * V) maxv = Some v"
    unfolding maxv_def using clamp_defined [OF m] by meson
  then have "RGBPixelToYUV r g b bits = Some (y, u, v)"
    unfolding RGBPixelToYUV_def p Let_def option.case maxv_def Y_def U_def V_def
    by simp
  then show ?thesis by blast
qed


lemma store_sample_small:
  assumes "int (unat w) \<le> 2 ^ (8 * sizeof T) - 1"
  shows "store_sample T w = unat w"
proof -
  have "int (unat w) < 2 ^ (8 * sizeof T)" using assms by simp
  then have "unat w < 2 ^ (8 * sizeof T)"
    by (metis of_nat_less_iff of_nat_numeral of_nat_power)
  then show ?thesis by (simp add: store_sample_def)
qed

lemma shift_one_sizeof: "shift_one (8 * int (sizeof T)) = Some (2 ^ (8 * sizeof T))"
  by (cases T) (simp_all add: shift_one_def)

lemma YUVPixelToRGB_T_range:
  assumes "YUVPixelToRGB_T T yv uv vv bits = Some (r', g', b')"
  shows "\<exists>rd gd bd.
           YUVPixelToRGB yv uv vv bits = Some (rd, gd, bd) \<and>
           int r' = \<lfloor>clamp_value (0.5 + real_of_int (2 ^ (8 * sizeof T) - 1) * rd)
                      (real_of_int (2 ^ (8 * sizeof T) - 1))\<rfloor> \<and>
           int g' = \<lfloor>clamp_value (0.5 + real_of_int (2 ^ (8 * sizeof T) - 1) * gd)
                      (real_of_int (2 ^ (8 * sizeof T) - 1))\<rfloor> \<and>
           int b' = \<lfloor>clamp_value (0.5 + real_of_int (2 ^ (8 * sizeof T) - 1) * bd)
                      (real_of_int (2 ^ (8 * sizeof T) - 1))\<rfloor> \<and>
           int r' \<le> 2 ^ (8 * sizeof T) - 1 \<and> int g' \<le> 2 ^ (8 * sizeof T) - 1 \<and>
           int b' \<le> 2 ^ (8 * sizeof T) - 1"
proof -
  define m :: int where "m = 2 ^ (8 * sizeof T) - 1"
  have m0: "0 \<le> m" by (simp add: m_def)
  from assms obtain rd gd bd where d: "YUVPixelToRGB yv uv vv bits = Some (rd, gd, bd)"
    by (auto simp: YUVPixelToRGB_T_def shift_one_sizeof Let_def split: option.splits)
  from assms d obtain r g b where
    c: "clamp (0.5 + real_of_int m * rd) (real_of_int m) = Some r"
       "clamp (0.5 + real_of_int m * gd) (real_of_int m) = Some g"
       "clamp (0.5 + real_of_int m * bd) (real_of_int m) = Some b"
    and st: "r' = store_sample T r" "g' = store_sample T g" "b' = store_sample T b"
    unfolding YUVPixelToRGB_T_def shift_one_sizeof Let_def m_def
    by (auto split: option.splits)
  note cr = clamp_Some [OF c(1) m0] and cg = clamp_Some [OF c(2) m0] and cb = clamp_Some [OF c(3) m0]
  have s: "store_sample T r = unat r" "store_sample T g = unat g" "store_sample T b = unat b"
    using cr(2) cg(2) cb(2) by (simp_all add: store_sample_small m_def)
  show ?thesis
    using d cr cg cb unfolding st s m_def by blast
qed

lemma YUVPixelToRGB_T_defined:
  assumes "1 \<le> bits" "bits \<le> 30"
  shows "\<exists>r' g' b'. YUVPixelToRGB_T T yv uv vv bits = Some (r', g', b')"
proof -
  have p: "shift_one bits = Some (2 ^ nat bits)"
    using assms by (simp add: shift_one_def)
  have "(2::int) ^ 1 \<le> 2 ^ nat bits"
    using assms by (intro power_increasing) simp_all
  then have nz: "(2::int) ^ nat bits - 1 \<noteq> 0" by simp
  obtain rd gd bd where d: "YUVPixelToRGB yv uv vv bits = Some (rd, gd, bd)"
    unfolding YUVPixelToRGB_def p option.case if_not_P [OF nz] Let_def by blast
  define m :: int where "m = 2 ^ (8 * sizeof T) - 1"
  have m: "0 \<le> m" "m \<le> 65535"
    by (cases T; simp add: m_def)+
  obtain r g b where
    "clamp (0.5 + real_of_int m * rd) (real_of_int m) = Some r"
    "clamp (0.5 + real_of_int m * gd) (real_of_int m) = Some g"
    "clamp (0.5 + real_of_int m * bd) (real_of_int m) = Some b"
    using clamp_defined [OF m] by meson
  then have "YUVPixelToRGB_T T yv uv vv bits =
             Some (store_sample T r, store_sample T g, store_sample T b)"
    unfolding YUVPixelToRGB_T_def shift_one_sizeof Let_def d m_def by simp
  then show ?thesis by blast
qed


text \<open>
  Claim C10. Whenever \<open>RGBPixelToYUV\<close> is defined, for any channel values and
  any bit depth, its three outputs are at most \<open>2^bits - 1\<close> (and at least 0,
  being unsigned); it is defined for every bit depth from 0 to 16. Whenever the
  typed \<open>YUVPixelToRGB\<close> is defined, each stored output is the integer part of
  the value clamped to \<open>[0, 2^(8 * sizeof(T)) - 1]\<close>, so it lies in that range and
  the conversion to \<open>T\<close> does not wrap; it is defined for every bit depth from
  1 to 30.
\<close>

theorem pixel_conversions_clamped:
  "(\<forall>y u v. RGBPixelToYUV r g b bits = Some (y, u, v) \<longrightarrow>
      int (unat y) \<le> 2 ^ nat bits - 1 \<and> int (unat u) \<le> 2 ^ nat bits - 1 \<and>
      int (unat v) \<le> 2 ^ nat bits - 1) \<and>
   (0 \<le> bits \<and> bits \<le> 16 \<longrightarrow> RGBPixelToYUV r g b bits \<noteq> None) \<and>
   (\<forall>r' g' b'. YUVPixelToRGB_T T yv uv vv depth = Some (r', g', b') \<longrightarrow>
      (\<exists>rd gd bd.
         YUVPixelToRGB yv uv vv depth = Some (rd, gd, bd) \<and>
         int r' = \<lfloor>clamp_value (0.5 + real_of_int (2 ^ (8 * sizeof T) - 1) * rd)
                    (real_of_int (2 ^ (8 * sizeof T) - 1))\<rfloor> \<and>
         int g' = \<lfloor>clamp_value (0.5 + real_of_int (2 ^ (8 * sizeof T) - 1) * gd)
                    (real_of_int (2 ^ (8 * sizeof T) - 1))\<rfloor> \<and>
         int b' = \<lfloor>clamp_value (0.5 + real_of_int (2 ^ (8 * sizeof T) - 1) * bd)
                    (real_of_int (2 ^ (8 * sizeof T) - 1))\<rfloor> \<and>
         int r' \<le> 2 ^ (8 * sizeof T) - 1 \<and> int g' \<le> 2 ^ (8 * sizeof T) - 1 \<and>
         int b' \<le> 2 ^ (8 * sizeof T) - 1)) \<and>
   (1 \<le> depth \<and> depth \<le> 30 \<longrightarrow> YUVPixelToRGB_T T yv uv vv depth \<noteq> None)"
proof (intro conjI allI impI)
  fix y u v assume "RGBPixelToYUV r g b bits = Some (y, u, v)"
  note R = RGBPixelToYUV_range [OF this]
  show "int (unat y) \<le> 2 ^ nat bits - 1" using R by blast
  show "int (unat u) \<le> 2 ^ nat bits - 1" using R by blast
  show "int (unat v) \<le> 2 ^ nat bits - 1" using R by blast
next
  assume "0 \<le> bits \<and> bits \<le> 16"
  then show "RGBPixelToYUV r g b bits \<noteq> None"
    using RGBPixelToYUV_defined [of bits r g b] by auto
next
  fix r' g' b' assume "YUVPixelToRGB_T T yv uv vv depth = Some (r', g', b')"
  then show "\<exists>rd gd bd.
         YUVPixelToRGB yv uv vv depth = Some (rd, gd, bd) \<and>
         int r' = \<lfloor>clamp_value (0.5 + real_of_int (2 ^ (8 * sizeof T) - 1) * rd)
                    (real_of_int (2 ^ (8 * sizeof T) - 1))\<rfloor> \<and>
         int g' = \<lfloor>clamp_value (0.5 + real_of_int (2 ^ (8 * sizeof T) - 1) * gd)
                    (real_of_int (2 ^ (8 * sizeof T) - 1))\<rfloor> \<and>
         int b' = \<lfloor>clamp_value (0.5 + real_of_int (2 ^ (8 * sizeof T) - 1) * bd)
                    (real_of_int (2 ^ (8 * sizeof T) - 1))\<rfloor> \<and>
         int r' \<le> 2 ^ (8 * sizeof T) - 1 \<and> int g' \<le> 2 ^ (8 * sizeof T) - 1 \<and>
         int b' \<le> 2 ^ (8 * sizeof T) - 1"
    by (rule YUVPixelToRGB_T_range)
next
  assume "1 \<le> depth \<and> depth \<le> 30"
  then show "YUVPixelToRGB_T T yv uv vv depth \<noteq> None"
    using YUVPixelToRGB_T_defined [of depth T yv uv vv] by auto
qed

lemma yuv_matrix_simps:
  "RGBtoYUVMatrixAdd ! 0 = 1 / 16" "RGBtoYUVMatrixAdd ! 1 = 1 / 2" "RGBtoYUVMatrixAdd ! 2 = 1 / 2"
  by (simp_all add: RGBtoYUVMatrixAdd_def)

lemma RGBPixelToYUV_saturates:
  "RGBPixelToYUV 10 10 10 8 = Some (255, 128, 128)"
  "RGBPixelToYUV (- 1) (- 1) (- 1) 8 = Some (0, 128, 128)"
  "RGBPixelToYUV 10 (- 3) 10 8 = Some (170, 255, 255)"
  apply (simp add: RGBPixelToYUV_def shift_one_def Let_def RGBtoYUVMatrix_def
      RGBtoYUVMatrixAdd_def kWeightR_def kWeightB_def kWeightG_def kWeightBc_def kWeightRc_def
      kScaleY_def kScaleUV_def clamp_def clamp_value_def to_uint16_def)+
  done

lemma YUVPixelToRGB_T_example:
  "YUVPixelToRGB_T UInt8 16 128 128 8 = Some (1, 0, 1)"
  apply (simp add: YUVPixelToRGB_T_def YUVPixelToRGB_def shift_one_def Let_def YUVtoRGBMatrix_def
      RGBtoYUVMatrixAdd_def kWeightR_def kWeightB_def kWeightG_def kWeightBc_def kWeightRc_def
      kScaleY_def kScaleUV_def clamp_def clamp_value_def to_uint16_def store_sample_def)
  done


text \<open>
  The theorem at an input where one output is inside the range and two are
  clamped to its upper end, and at a YUV input near black.
\<close>

theorem pixel_conversions_clamped_witness:
  "RGBPixelToYUV 10 (- 3) 10 8 = Some (170, 255, 255) \<and>
   int (unat (170 :: 16 word)) \<le> 2 ^ nat 8 - 1 \<and>
   int (unat (255 :: 16 word)) \<le> 2 ^ nat 8 - 1 \<and>
   RGBPixelToYUV 10 (- 3) 10 8 \<noteq> None \<and>
   YUVPixelToRGB_T UInt8 16 128 128 8 = Some (1, 0, 1) \<and>
   int 1 \<le> 2 ^ (8 * sizeof UInt8) - 1 \<and> int 0 \<le> 2 ^ (8 * sizeof UInt8) - 1 \<and>
   YUVPixelToRGB_T UInt8 16 128 128 8 \<noteq> None"
proof -
  note T = pixel_conversions_clamped [where r = 10 and g = "- 3" and b = 10 and bits = 8
      and T = UInt8 and yv = 16 and uv = 128 and vv = 128 and depth = 8]
  have a: "RGBPixelToYUV 10 (- 3) 10 8 = Some (170, 255, 255)"
    by (rule RGBPixelToYUV_saturates)
  have b: "YUVPixelToRGB_T UInt8 16 128 128 8 = Some (1, 0, 1)"
    by (rule YUVPixelToRGB_T_example)
  from T [THEN conjunct1, rule_format, OF a]
  have r1: "int (unat (170 :: 16 word)) \<le> 2 ^ nat 8 - 1"
    and r2: "int (unat (255 :: 16 word)) \<le> 2 ^ nat 8 - 1" by blast+
  have d1: "RGBPixelToYUV 10 (- 3) 10 8 \<noteq> None"
    using T [THEN conjunct2, THEN conjunct1] by simp
  from T [THEN conjunct2, THEN conjunct2, THEN conjunct1, rule_format, OF b]
  have r3: "int 1 \<le> 2 ^ (8 * sizeof UInt8) - 1" and r4: "int 0 \<le> 2 ^ (8 * sizeof UInt8) - 1"
    by blast+
  have d2: "YUVPixelToRGB_T UInt8 16 128 128 8 \<noteq> None"
    using T [THEN conjunct2, THEN conjunct2, THEN conjunct2] by simp
  show ?thesis using a b r1 r2 r3 r4 d1 d2 by blast
qed

end
